theory Spec2Isabelle
  imports Complex_Main "HOL-Library.Word" "HOL-Library.Log_Nat"
begin

section \<open>Binary floating point\<close>

text \<open>
  The routine \<open>process_gray\<close> of \<open>mylib.cpp\<close> computes in \<open>double\<close> (IEEE 754 binary64)
  and returns two \<open>float\<close>s (binary32). A floating-point datum is a finite value, kept
  as the exact real number it denotes, an infinity or a NaN. Every operation of the
  source computes the exact real result and rounds it once, to nearest, ties to even,
  as the default rounding mode does; the product and the sum of \<open>var += d * d\<close> are two
  operations, each rounded (no fused multiply-add). The sign of zero is not kept: the
  accumulators start at \<open>+0\<close>, a difference of equal numbers is \<open>+0\<close>, a square and a
  quotient of non-negative numbers are not negative, and the only divisor is a sample
  count that is at least one, so a negative zero can neither arise nor be observed.
\<close>

datatype fp = Finite real | PInf | NInf | NaN

text \<open>Rounding a real to the nearest integer, a tie going to the even neighbour.\<close>

definition rhe :: "real \<Rightarrow> int" where
  "rhe q = (let f = \<lfloor>q\<rfloor>; r = q - of_int f in
     if r < 1 / 2 then f
     else if 1 / 2 < r then f + 1
     else if even f then f else f + 1)"

text \<open>The binary exponent of a positive real: \<open>2 powi ilog2 x \<le> x < 2 powi (ilog2 x + 1)\<close>.\<close>

definition ilog2 :: "real \<Rightarrow> int" where
  "ilog2 x = (if 1 \<le> x then bitlen \<lfloor>x\<rfloor> - 1 else - bitlen (\<lceil>1 / x\<rceil> - 1))"

text \<open>
  Rounding to a format of precision \<open>p\<close> whose smallest subnormal is \<open>2 powi emin\<close>:
  the unit in the last place of \<open>x\<close> is \<open>2 powi e\<close> with \<open>e = max (ilog2 \<bar>x\<bar> - (p - 1)) emin\<close>,
  and \<open>x\<close> goes to the nearest multiple of it. The exponent is not bounded above here.
\<close>

definition ulp_exp :: "nat \<Rightarrow> int \<Rightarrow> real \<Rightarrow> int" where
  "ulp_exp p emin x = max (ilog2 \<bar>x\<bar> - (int p - 1)) emin"

definition rnd :: "nat \<Rightarrow> int \<Rightarrow> real \<Rightarrow> real" where
  "rnd p emin x = (if x = 0 then 0
     else let e = ulp_exp p emin x in of_int (rhe (x / 2 powi e)) * 2 powi e)"

text \<open>
  Overflow: a rounded magnitude of \<open>2 powi emax\<close> or more is not a finite number of the
  format and becomes the infinity of its sign.
\<close>

definition fp_round :: "nat \<Rightarrow> int \<Rightarrow> int \<Rightarrow> real \<Rightarrow> fp" where
  "fp_round p emin emax x = (let v = rnd p emin x in
     if 2 powi emax \<le> \<bar>v\<bar> then (if 0 < v then PInf else NInf) else Finite v)"

definition round64 :: "real \<Rightarrow> fp" where
  "round64 = fp_round 53 (- 1074) 1024"

definition round32 :: "real \<Rightarrow> fp" where
  "round32 = fp_round 24 (- 149) 128"

subsection \<open>The operations of \<open>double\<close> used by the routine\<close>

fun dadd :: "fp \<Rightarrow> fp \<Rightarrow> fp" where
  "dadd (Finite x) (Finite y) = round64 (x + y)"
| "dadd NaN _ = NaN"
| "dadd _ NaN = NaN"
| "dadd PInf NInf = NaN"
| "dadd NInf PInf = NaN"
| "dadd PInf _ = PInf"
| "dadd _ PInf = PInf"
| "dadd NInf _ = NInf"
| "dadd _ NInf = NInf"

fun fneg :: "fp \<Rightarrow> fp" where
  "fneg (Finite x) = Finite (- x)"
| "fneg PInf = NInf"
| "fneg NInf = PInf"
| "fneg NaN = NaN"

definition dsub :: "fp \<Rightarrow> fp \<Rightarrow> fp" where
  "dsub x y = dadd x (fneg y)"

text \<open>The sign of a datum that is not a NaN: \<open>True\<close> for negative.\<close>

fun sign_bit :: "fp \<Rightarrow> bool" where
  "sign_bit (Finite x) = (x < 0)"
| "sign_bit NInf = True"
| "sign_bit _ = False"

definition signed_inf :: "bool \<Rightarrow> fp" where
  "signed_inf neg = (if neg then NInf else PInf)"

fun dmul :: "fp \<Rightarrow> fp \<Rightarrow> fp" where
  "dmul (Finite x) (Finite y) = round64 (x * y)"
| "dmul NaN _ = NaN"
| "dmul _ NaN = NaN"
| "dmul x y =
     (if x = Finite 0 \<or> y = Finite 0 then NaN
      else signed_inf (sign_bit x \<noteq> sign_bit y))"

fun ddiv :: "fp \<Rightarrow> fp \<Rightarrow> fp" where
  "ddiv (Finite x) (Finite y) =
     (if y = 0 then (if x = 0 then NaN else signed_inf (x < 0)) else round64 (x / y))"
| "ddiv NaN _ = NaN"
| "ddiv _ NaN = NaN"
| "ddiv (Finite x) _ = Finite 0"
| "ddiv x (Finite y) = signed_inf (sign_bit x \<noteq> (y < 0))"
| "ddiv _ _ = NaN"

text \<open>The integer square root, by the binary digit recurrence.\<close>

function isqrt :: "int \<Rightarrow> int" where
  "isqrt n = (if n \<le> 0 then 0
     else let r = 2 * isqrt (n div 4) in if (r + 1) * (r + 1) \<le> n then r + 1 else r)"
  by pat_completeness auto
termination
  by (relation "measure nat") auto

declare isqrt.simps [simp del]

text \<open>
  The correctly rounded square root of a positive real \<open>x\<close>: with \<open>2 powi e\<close> the unit in
  the last place of the root and \<open>y = x / 4 powi e\<close>, the root of \<open>y\<close> lies between
  \<open>f = isqrt \<lfloor>y\<rfloor>\<close> and \<open>f + 1\<close>, and it is compared with the midpoint through its square.
\<close>

definition rnd_sqrt :: "nat \<Rightarrow> int \<Rightarrow> real \<Rightarrow> real" where
  "rnd_sqrt p emin x = (if x \<le> 0 then 0
     else let e = max (ilog2 x div 2 - (int p - 1)) emin;
              y = x / 2 powi (2 * e);
              f = isqrt \<lfloor>y\<rfloor>;
              h = (of_int f + 1 / 2) * (of_int f + 1 / 2)
          in of_int (if y < h then f else if h < y then f + 1
                     else if even f then f else f + 1) * 2 powi e)"

fun dsqrt :: "fp \<Rightarrow> fp" where
  "dsqrt (Finite x) = (if x < 0 then NaN else Finite (rnd_sqrt 53 (- 1074) x))"
| "dsqrt PInf = PInf"
| "dsqrt NInf = NaN"
| "dsqrt NaN = NaN"

text \<open>Conversions: an integer to \<open>double\<close>, and a \<open>double\<close> to \<open>float\<close>.\<close>

definition double_of_int :: "int \<Rightarrow> fp" where
  "double_of_int k = round64 (of_int k)"

fun float_of_double :: "fp \<Rightarrow> fp" where
  "float_of_double (Finite x) = round32 x"
| "float_of_double v = v"

text \<open>The comparison \<open>x >= y\<close> of C++: false as soon as an operand is a NaN.\<close>

fun fp_ge :: "fp \<Rightarrow> fp \<Rightarrow> bool" where
  "fp_ge NaN _ = False"
| "fp_ge _ NaN = False"
| "fp_ge (Finite x) (Finite y) = (y \<le> x)"
| "fp_ge PInf _ = True"
| "fp_ge _ NInf = True"
| "fp_ge _ _ = False"

section \<open>The routine\<close>

text \<open>\<open>mylib.h\<close>: \<open>typedef struct Result { float a; float b; } Result;\<close>\<close>

record Result =
  a :: fp
  b :: fp

text \<open>
  The argument \<open>data\<close> is a pointer to bytes: \<open>None\<close> is the null pointer, \<open>Some buf\<close>
  points to the first of the \<open>length buf\<close> readable bytes \<open>buf\<close>. Reading through the null
  pointer or outside these bytes is undefined behaviour of the C++ program; the model
  stops there with a fault.
\<close>

type_synonym buffer = "8 word list"

datatype fault = NullDeref | OutOfBounds

definition load :: "buffer option \<Rightarrow> int \<Rightarrow> fault + 8 word" where
  "load data i = (case data of
       None \<Rightarrow> Inl NullDeref
     | Some buf \<Rightarrow> if 0 \<le> i \<and> i < int (length buf) then Inr (buf ! nat i) else Inl OutOfBounds)"

text \<open>
  \<open>for (int i = i0; i < bound; i++) body\<close> over a state \<open>s\<close>: the counter is a 32-bit
  \<open>int\<close>, compared as a signed number. The increment is only reached with \<open>i < bound\<close>,
  where it cannot overflow. A fault in the body ends the loop.
\<close>

function for_loop :: "32 word \<Rightarrow> 32 word \<Rightarrow> (32 word \<Rightarrow> 's \<Rightarrow> fault + 's) \<Rightarrow> 's \<Rightarrow> fault + 's" where
  "for_loop i bound body s =
     (if i <s bound
      then (case body i s of Inl e \<Rightarrow> Inl e | Inr s' \<Rightarrow> for_loop (i + 1) bound body s')
      else Inr s)"
  by pat_completeness auto

termination for_loop
proof (relation "measure (\<lambda>(i, bound, body, s). nat (sint bound - sint i))")
  show "wf (measure (\<lambda>(i :: 32 word, bound :: 32 word, body :: 32 word \<Rightarrow> 's \<Rightarrow> fault + 's, s :: 's).
      nat (sint bound - sint i)))"
    by simp
next
  fix i bound :: "32 word" and body :: "32 word \<Rightarrow> 's \<Rightarrow> fault + 's" and s x2 :: 's
  assume "i <s bound"
  then have lt: "sint i < sint bound"
    by (simp add: word_sless_alt)
  have "sint bound < 2 ^ 31" and "- (2 ^ 31) \<le> sint i"
    using sint_lt [of bound] sint_ge [of i] by simp_all
  with lt have "- (2 ^ 31) \<le> sint i + 1" and "sint i + 1 < 2 ^ 31"
    by linarith+
  then have "signed_take_bit 31 (sint i + 1) = sint i + 1"
    by (simp add: signed_take_bit_int_eq_self)
  then have "sint (i + 1) = sint i + 1"
    by (simp add: sint_word_ariths)
  with lt show "((i + 1, bound, body, x2), (i, bound, body, s))
      \<in> measure (\<lambda>(i, bound, body, s). nat (sint bound - sint i))"
    by simp
qed

declare for_loop.simps [simp del]

text \<open>
  The state of each pass is its accumulator and the byte offsets read so far, in
  order. \<open>row\<close> is the offset \<open>(int64_t)y * rowStride\<close> of the row pointer from \<open>data\<close>,
  and \<open>row[x]\<close> reads the byte at offset \<open>row + x\<close>; a \<open>uint8_t\<close> is promoted to \<open>int\<close>
  and then converted to \<open>double\<close>.
\<close>

type_synonym pass_state = "fp \<times> int list"

definition row_offset :: "32 word \<Rightarrow> 32 word \<Rightarrow> 64 word" where
  "row_offset y rowStride = scast y * scast rowStride"

text \<open>Lines 11 to 14: \<open>sum += row[x]\<close>.\<close>

definition sum_step :: "buffer option \<Rightarrow> 64 word \<Rightarrow> 32 word \<Rightarrow> pass_state \<Rightarrow> fault + pass_state" where
  "sum_step data row x = (\<lambda>(sum1, reads).
     case load data (sint row + sint x) of
       Inl e \<Rightarrow> Inl e
     | Inr v \<Rightarrow> Inr (dadd sum1 (double_of_int (uint v)), reads @ [sint row + sint x]))"

definition sum_pass :: "buffer option \<Rightarrow> 32 word \<Rightarrow> 32 word \<Rightarrow> 32 word \<Rightarrow> pass_state \<Rightarrow> fault + pass_state" where
  "sum_pass data width height rowStride =
     for_loop 0 height (\<lambda>y. for_loop 0 width (sum_step data (row_offset y rowStride)))"

text \<open>Lines 19 to 25: \<open>double d = row[x] - mean; var += d * d\<close>.\<close>

definition var_step :: "buffer option \<Rightarrow> fp \<Rightarrow> 64 word \<Rightarrow> 32 word \<Rightarrow> pass_state \<Rightarrow> fault + pass_state" where
  "var_step data mean row x = (\<lambda>(var, reads).
     case load data (sint row + sint x) of
       Inl e \<Rightarrow> Inl e
     | Inr v \<Rightarrow>
         let d = dsub (double_of_int (uint v)) mean
         in Inr (dadd var (dmul d d), reads @ [sint row + sint x]))"

definition var_pass :: "buffer option \<Rightarrow> fp \<Rightarrow> 32 word \<Rightarrow> 32 word \<Rightarrow> 32 word \<Rightarrow> pass_state \<Rightarrow> fault + pass_state" where
  "var_pass data mean width height rowStride =
     for_loop 0 height (\<lambda>y. for_loop 0 width (var_step data mean (row_offset y rowStride)))"

text \<open>
  \<open>process_gray\<close>, lines 4 to 31. The result is a fault, or the returned \<open>Result\<close> with
  the offsets of all the bytes the call has read.
\<close>

definition sample_count :: "32 word \<Rightarrow> 32 word \<Rightarrow> 64 word" where
  "sample_count width height = scast width * scast height"

definition process_gray ::
  "buffer option \<Rightarrow> 32 word \<Rightarrow> 32 word \<Rightarrow> 32 word \<Rightarrow> fault + (Result \<times> int list)" where
  "process_gray data width height rowStride =
     (let r = \<lparr>a = Finite 0, b = Finite 0\<rparr> in
      if data = None \<or> width \<le>s 0 \<or> height \<le>s 0 \<or> rowStride \<le>s 0 then Inr (r, [])
      else
        let n = sample_count width height in
        case sum_pass data width height rowStride (Finite 0, []) of
          Inl e \<Rightarrow> Inl e
        | Inr (sum1, reads1) \<Rightarrow>
            let mean = ddiv sum1 (double_of_int (sint n)) in
            case var_pass data mean width height rowStride (Finite 0, reads1) of
              Inl e \<Rightarrow> Inl e
            | Inr (var, reads2) \<Rightarrow>
                let var' = ddiv var (double_of_int (sint n))
                in Inr (r\<lparr>a := float_of_double mean, b := float_of_double (dsqrt var')\<rparr>, reads2))"

section \<open>The specification\<close>

text \<open>
  The spec states the result over the logical \<open>width x height\<close> region of the buffer:
  the sample of row \<open>y\<close> and column \<open>x\<close> is the byte at offset \<open>y * rowStride + x\<close>, and
  the samples are taken row by row. Here the three sizes are natural numbers, and
  \<open>N = width * height\<close> is their exact product. (For a valid input every such offset is
  inside the buffer, see \<open>region_index_bound\<close>.)
\<close>

definition dim :: "32 word \<Rightarrow> nat" where
  "dim w = nat (sint w)"

definition region :: "buffer \<Rightarrow> nat \<Rightarrow> nat \<Rightarrow> nat \<Rightarrow> 8 word list" where
  "region buf w h rs = concat (map (\<lambda>y. map (\<lambda>x. buf ! (y * rs + x)) [0..<w]) [0..<h])"

definition region_offsets :: "nat \<Rightarrow> nat \<Rightarrow> nat \<Rightarrow> int list" where
  "region_offsets w h rs = concat (map (\<lambda>y. map (\<lambda>x. int (y * rs + x)) [0..<w]) [0..<h])"

text \<open>
  A valid input: a non-null buffer, three positive sizes, and a buffer readable for
  \<open>(height - 1) * rowStride + width\<close> bytes.
\<close>

definition valid_input :: "buffer option \<Rightarrow> 32 word \<Rightarrow> 32 word \<Rightarrow> 32 word \<Rightarrow> bool" where
  "valid_input data width height rowStride = (case data of
       None \<Rightarrow> False
     | Some buf \<Rightarrow> 0 < sint width \<and> 0 < sint height \<and> 0 < sint rowStride \<and>
         (sint height - 1) * sint rowStride + sint width \<le> int (length buf))"

text \<open>
  The mean: the sum of the samples, accumulated in double precision, over \<open>N\<close>. The
  standard deviation: the square root of the sum of the squared deviations from that
  mean, accumulated in double precision, over \<open>N\<close>.
\<close>

definition add_sample :: "fp \<Rightarrow> 8 word \<Rightarrow> fp" where
  "add_sample s v = dadd s (double_of_int (uint v))"

definition add_deviation :: "fp \<Rightarrow> fp \<Rightarrow> 8 word \<Rightarrow> fp" where
  "add_deviation mean s v =
     dadd s (dmul (dsub (double_of_int (uint v)) mean) (dsub (double_of_int (uint v)) mean))"

definition spec_mean :: "buffer \<Rightarrow> nat \<Rightarrow> nat \<Rightarrow> nat \<Rightarrow> fp" where
  "spec_mean buf w h rs =
     ddiv (foldl add_sample (Finite 0) (region buf w h rs)) (double_of_int (int w * int h))"

definition spec_stddev :: "buffer \<Rightarrow> nat \<Rightarrow> nat \<Rightarrow> nat \<Rightarrow> fp" where
  "spec_stddev buf w h rs =
     dsqrt (ddiv (foldl (add_deviation (spec_mean buf w h rs)) (Finite 0) (region buf w h rs))
       (double_of_int (int w * int h)))"

text \<open>The exact sum of the samples of the region.\<close>

definition sample_sum :: "buffer \<Rightarrow> nat \<Rightarrow> nat \<Rightarrow> nat \<Rightarrow> int" where
  "sample_sum buf w h rs = sum_list (map uint (region buf w h rs))"

subsection \<open>Rounding to nearest, ties to even\<close>

text \<open>
  The rounding of IEEE 754, stated without an algorithm. A real is a float of precision
  \<open>p\<close> and least exponent \<open>emin\<close> when it is \<open>m * 2 powi e\<close> for an integer significand
  \<open>m\<close> of at most \<open>p\<close> bits and an exponent \<open>e\<close> not below \<open>emin\<close> (the largest exponent
  is left out: the values of the routine stay far from overflow, as the theorems show).
\<close>

definition is_float :: "nat \<Rightarrow> int \<Rightarrow> real \<Rightarrow> bool" where
  "is_float p emin v = (\<exists>m e. v = of_int m * 2 powi e \<and> \<bar>m\<bar> < 2 ^ p \<and> emin \<le> e)"

text \<open>
  A float is even when the significand of its canonical representation (normal, or
  of the least exponent) is even.
\<close>

definition even_float :: "nat \<Rightarrow> int \<Rightarrow> real \<Rightarrow> bool" where
  "even_float p emin v = (\<exists>m e. v = of_int m * 2 powi e \<and> even m \<and> \<bar>m\<bar> < 2 ^ p \<and> emin \<le> e \<and>
     (e = emin \<or> 2 ^ (p - 1) \<le> \<bar>m\<bar>))"

text \<open>
  \<open>v\<close> is \<open>x\<close> rounded to nearest, ties to even: a float, no float is nearer to \<open>x\<close>, and
  if another float is as near then \<open>v\<close> is the even one.
\<close>

definition nearest_even :: "nat \<Rightarrow> int \<Rightarrow> real \<Rightarrow> real \<Rightarrow> bool" where
  "nearest_even p emin x v = (is_float p emin v \<and>
     (\<forall>y. is_float p emin y \<longrightarrow> \<bar>x - v\<bar> \<le> \<bar>x - y\<bar>) \<and>
     (\<forall>y. is_float p emin y \<and> y \<noteq> v \<and> \<bar>x - y\<bar> = \<bar>x - v\<bar> \<longrightarrow> even_float p emin v))"

subsection \<open>The statistics in double precision\<close>

text \<open>
  The samples of the region as reals, in row order.
\<close>

definition samples :: "buffer \<Rightarrow> nat \<Rightarrow> nat \<Rightarrow> nat \<Rightarrow> real list" where
  "samples buf w h rs = map (\<lambda>v. real_of_int (uint v)) (region buf w h rs)"

text \<open>
  \<open>t\<close> is the sum of the list accumulated in double precision from \<open>s\<close>: the elements are
  added one by one, each real sum rounded to the nearest \<open>double\<close>.
\<close>

fun double_accumulated :: "real \<Rightarrow> real list \<Rightarrow> real \<Rightarrow> bool" where
  "double_accumulated s [] t = (t = s)"
| "double_accumulated s (v # vs) t =
     (\<exists>s'. nearest_even 53 (- 1074) (s + v) s' \<and> double_accumulated s' vs t)"

text \<open>
  The same for the squared deviations from \<open>m\<close>: the difference, its square and the sum
  are each rounded to the nearest \<open>double\<close>.
\<close>

fun deviations_accumulated :: "real \<Rightarrow> real \<Rightarrow> real list \<Rightarrow> real \<Rightarrow> bool" where
  "deviations_accumulated m s [] t = (t = s)"
| "deviations_accumulated m s (v # vs) t =
     (\<exists>d q s'. nearest_even 53 (- 1074) (v - m) d \<and> nearest_even 53 (- 1074) (d * d) q \<and>
        nearest_even 53 (- 1074) (s + q) s' \<and> deviations_accumulated m s' vs t)"

text \<open>
  \<open>m\<close> is the mean of the list in double precision: the accumulated sum over the count
  \<open>n\<close> converted to \<open>double\<close>, the real quotient rounded to the nearest \<open>double\<close>.
  \<open>s\<close> is the population standard deviation in double precision about \<open>m\<close>: the
  accumulated sum of squared deviations over \<open>n\<close> (not \<open>n - 1\<close>), and the real square
  root of that quotient rounded to the nearest \<open>double\<close>.
\<close>

definition is_double_mean :: "real list \<Rightarrow> nat \<Rightarrow> real \<Rightarrow> bool" where
  "is_double_mean vs n m = (\<exists>S c. double_accumulated 0 vs S \<and>
     nearest_even 53 (- 1074) (real n) c \<and> nearest_even 53 (- 1074) (S / c) m)"

definition is_double_stddev :: "real list \<Rightarrow> nat \<Rightarrow> real \<Rightarrow> real \<Rightarrow> bool" where
  "is_double_stddev vs n m s = (\<exists>V c x. deviations_accumulated m 0 vs V \<and>
     nearest_even 53 (- 1074) (real n) c \<and> nearest_even 53 (- 1074) (V / c) x \<and>
     nearest_even 53 (- 1074) (sqrt x) s)"

section \<open>Auxiliary notions\<close>

text \<open>Running a fallible step over a list, stopping at the first fault.\<close>

fun foldE :: "('a \<Rightarrow> 's \<Rightarrow> fault + 's) \<Rightarrow> 'a list \<Rightarrow> 's \<Rightarrow> fault + 's" where
  "foldE f [] s = Inr s"
| "foldE f (x # xs) s = (case f x s of Inl e \<Rightarrow> Inl e | Inr s' \<Rightarrow> foldE f xs s')"

text \<open>The common shape of the two loop bodies: read \<open>row[x]\<close>, update the accumulator.\<close>

definition read_step ::
  "(fp \<Rightarrow> 8 word \<Rightarrow> fp) \<Rightarrow> buffer option \<Rightarrow> 64 word \<Rightarrow> 32 word \<Rightarrow> pass_state \<Rightarrow> fault + pass_state" where
  "read_step upd data row x = (\<lambda>(acc, reads).
     case load data (sint row + sint x) of
       Inl e \<Rightarrow> Inl e
     | Inr v \<Rightarrow> Inr (upd acc v, reads @ [sint row + sint x]))"

text \<open>The \<open>Result\<close> a call returns, if it returns.\<close>

definition returned :: "fault + (Result \<times> int list) \<Rightarrow> Result option" where
  "returned out = (case out of Inl e \<Rightarrow> None | Inr (r, reads) \<Rightarrow> Some r)"

section \<open>Properties of rounding\<close>

lemma two_powi_pos [simp]: "0 < (2::real) powi k"
  by (simp add: zero_less_power_int)

lemma two_powi_le: "k \<le> l \<Longrightarrow> (2::real) powi k \<le> 2 powi l"
  by (rule power_int_increasing) simp_all

lemma two_powi_less_cancel: "(2::real) powi k < 2 powi l \<Longrightarrow> k < l"
  by (rule ccontr) (use two_powi_le [of l k] in simp)

lemma two_powi_add: "(2::real) powi (k + l) = 2 powi k * 2 powi l"
  by (simp add: power_int_add)

lemma two_powi_diff: "(2::real) powi (k - l) = 2 powi k / 2 powi l"
  by (simp add: power_int_diff)

lemma two_powi_nat: "0 \<le> k \<Longrightarrow> (2::real) powi k = 2 ^ nat k"
  by (simp add: power_int_def)

lemma ilog2_bounds:
  assumes "0 < x"
  shows "2 powi ilog2 x \<le> x" and "x < 2 powi (ilog2 x + 1)"
proof -
  have "2 powi ilog2 x \<le> x \<and> x < 2 powi (ilog2 x + 1)"
  proof (cases "1 \<le> x")
    case True
    define n where "n = \<lfloor>x\<rfloor>"
    have n: "0 < n" "of_int n \<le> x" "x < of_int n + 1"
      unfolding n_def using True by linarith+
    have b: "2 ^ nat (bitlen n - 1) \<le> n" "n < 2 ^ nat (bitlen n)"
      using bitlen_bounds [OF n(1)] by simp_all
    have l: "1 \<le> bitlen n"
      using n(1) bitlen_eq_zero_iff [of n] bitlen_nonneg [of n] by linarith
    have "n + 1 \<le> 2 ^ nat (bitlen n)"
      using b(2) by simp
    then have "real_of_int (n + 1) \<le> 2 ^ nat (bitlen n)"
      by (simp only: of_int_le_numeral_power_cancel_iff)
    then have up: "x < 2 ^ nat (bitlen n)"
      using n(3) by linarith
    have "2 ^ nat (bitlen n - 1) \<le> real_of_int n"
      using b(1) by (simp only: numeral_power_le_of_int_cancel_iff)
    then have lo: "2 ^ nat (bitlen n - 1) \<le> x"
      using n(2) by (rule order_trans)
    have "ilog2 x = bitlen n - 1"
      using True by (simp add: ilog2_def n_def)
    then show ?thesis
      using lo up l by (simp add: two_powi_nat)
  next
    case False
    define y where "y = 1 / x"
    define m where "m = \<lceil>y\<rceil> - 1"
    have y: "1 < y"
      using False assms by (simp add: y_def)
    have m: "0 < m" "of_int m < y" "y \<le> of_int m + 1"
      unfolding m_def using y by linarith+
    have b: "2 ^ nat (bitlen m - 1) \<le> m" "m < 2 ^ nat (bitlen m)"
      using bitlen_bounds [OF m(1)] by simp_all
    have l: "1 \<le> bitlen m"
      using m(1) bitlen_eq_zero_iff [of m] bitlen_nonneg [of m] by linarith
    have "m + 1 \<le> 2 ^ nat (bitlen m)"
      using b(2) by simp
    then have "real_of_int (m + 1) \<le> 2 ^ nat (bitlen m)"
      by (simp only: of_int_le_numeral_power_cancel_iff)
    then have up: "y \<le> 2 ^ nat (bitlen m)"
      using m(3) by linarith
    have "2 ^ nat (bitlen m - 1) \<le> real_of_int m"
      using b(1) by (simp only: numeral_power_le_of_int_cancel_iff)
    then have lo: "2 ^ nat (bitlen m - 1) < y"
      using m(2) by (rule le_less_trans)
    have e: "ilog2 x = - bitlen m"
      using False by (simp add: ilog2_def m_def y_def)
    have x: "x = 1 / y"
      using assms by (simp add: y_def)
    have "1 / 2 ^ nat (bitlen m) \<le> 1 / y"
      using up y by (intro divide_left_mono) simp_all
    then have g1: "2 powi (- bitlen m) \<le> x"
      using l by (simp add: x power_int_minus two_powi_nat field_simps)
    have "1 / y < 1 / 2 ^ nat (bitlen m - 1)"
      using lo y by (intro divide_strict_left_mono) simp_all
    moreover have "(2::real) powi (- bitlen m + 1) = 1 / 2 ^ nat (bitlen m - 1)"
    proof -
      have "(2::real) powi (- bitlen m + 1) = 2 powi (- (bitlen m - 1))"
        by simp
      also have "\<dots> = 1 / 2 powi (bitlen m - 1)"
        by (simp only: power_int_minus_divide)
      finally show ?thesis
        using l by (simp add: two_powi_nat)
    qed
    ultimately have g2: "x < 2 powi (- bitlen m + 1)"
      by (simp add: x)
    show ?thesis
      using g1 g2 e by simp
  qed
  then show "2 powi ilog2 x \<le> x" and "x < 2 powi (ilog2 x + 1)"
    by simp_all
qed

lemma ilog2_unique:
  assumes "2 powi k \<le> x" and "x < 2 powi (k + 1)"
  shows "ilog2 x = k"
proof -
  have pos: "0 < x"
    using assms(1) two_powi_pos [of k] by linarith
  have "(2::real) powi k < 2 powi (ilog2 x + 1)"
    using assms(1) ilog2_bounds(2) [OF pos] by linarith
  then have "k < ilog2 x + 1"
    by (rule two_powi_less_cancel)
  moreover have "(2::real) powi ilog2 x < 2 powi (k + 1)"
    using assms(2) ilog2_bounds(1) [OF pos] by linarith
  then have "ilog2 x < k + 1"
    by (rule two_powi_less_cancel)
  ultimately show ?thesis
    by simp
qed

lemma ilog2_mono:
  assumes "0 < x" and "x \<le> y"
  shows "ilog2 x \<le> ilog2 y"
proof -
  have "(2::real) powi ilog2 x < 2 powi (ilog2 y + 1)"
    using ilog2_bounds(1) [OF assms(1)] ilog2_bounds(2) [of y] assms by linarith
  then have "ilog2 x < ilog2 y + 1"
    by (rule two_powi_less_cancel)
  then show ?thesis
    by simp
qed

lemma rhe_cases:
  obtains (down) "q - of_int \<lfloor>q\<rfloor> < 1 / 2" "rhe q = \<lfloor>q\<rfloor>"
  | (up) "1 / 2 < q - of_int \<lfloor>q\<rfloor>" "rhe q = \<lfloor>q\<rfloor> + 1"
  | (tie_even) "q - of_int \<lfloor>q\<rfloor> = 1 / 2" "even \<lfloor>q\<rfloor>" "rhe q = \<lfloor>q\<rfloor>"
  | (tie_odd) "q - of_int \<lfloor>q\<rfloor> = 1 / 2" "odd \<lfloor>q\<rfloor>" "rhe q = \<lfloor>q\<rfloor> + 1"
  unfolding rhe_def Let_def by (cases "q - of_int \<lfloor>q\<rfloor> < 1 / 2"; cases "1 / 2 < q - of_int \<lfloor>q\<rfloor>"; cases "even \<lfloor>q\<rfloor>"; simp; linarith?)

lemma rhe_near: "\<bar>q - of_int (rhe q)\<bar> \<le> 1 / 2"
  by (cases q rule: rhe_cases) (simp_all; linarith)+

lemma rhe_tie_even: "\<bar>q - of_int (rhe q)\<bar> = 1 / 2 \<Longrightarrow> even (rhe q)"
  by (cases q rule: rhe_cases) (simp_all; linarith?)+

lemma rhe_unique:
  assumes "\<bar>q - of_int n\<bar> < 1 / 2 \<or> (\<bar>q - of_int n\<bar> = 1 / 2 \<and> even n)"
  shows "rhe q = n"
proof -
  let ?m = "rhe q"
  have near: "\<bar>q - of_int ?m\<bar> \<le> 1 / 2"
    by (rule rhe_near)
  have "\<bar>real_of_int ?m - of_int n\<bar> \<le> 1"
    using assms near by linarith
  then have "\<bar>real_of_int (?m - n)\<bar> \<le> 1"
    by simp
  then have d: "\<bar>?m - n\<bar> \<le> 1"
    by linarith
  show ?thesis
  proof (rule ccontr)
    assume ne: "?m \<noteq> n"
    with d have d1: "?m = n + 1 \<or> ?m = n - 1"
      by linarith
    then have "\<bar>real_of_int ?m - of_int n\<bar> = 1"
      by auto
    with assms near have t: "\<bar>q - of_int n\<bar> = 1 / 2" "\<bar>q - of_int ?m\<bar> = 1 / 2"
      by linarith+
    then have "even n" "even ?m"
      using assms rhe_tie_even [of q] by auto
    with d1 show False
      by auto
  qed
qed

lemma rhe_of_int [simp]: "rhe (of_int k) = k"
  by (rule rhe_unique) simp

lemma rhe_minus: "rhe (- q) = - rhe q"
proof (rule rhe_unique)
  have "\<bar>- q - of_int (- rhe q)\<bar> = \<bar>q - of_int (rhe q)\<bar>"
    by simp
  then show "\<bar>- q - of_int (- rhe q)\<bar> < 1 / 2 \<or> (\<bar>- q - of_int (- rhe q)\<bar> = 1 / 2 \<and> even (- rhe q))"
    using rhe_near [of q] rhe_tie_even [of q] by (cases "\<bar>q - of_int (rhe q)\<bar> = 1 / 2") auto
qed

lemma rhe_mono:
  assumes "x \<le> y"
  shows "rhe x \<le> rhe y"
proof (rule ccontr)
  assume "\<not> rhe x \<le> rhe y"
  then have gt: "rhe y + 1 \<le> rhe x"
    by simp
  then have "real_of_int (rhe y) + 1 \<le> real_of_int (rhe x)"
    by linarith
  with assms rhe_near [of x] rhe_near [of y]
  have eq: "real_of_int (rhe x) = of_int (rhe y) + 1" "x = y"
    "\<bar>x - of_int (rhe x)\<bar> = 1 / 2"
    by linarith+
  then have "rhe x = rhe y"
    by simp
  with gt show False
    by simp
qed

lemma rhe_ge: "of_int k \<le> q \<Longrightarrow> k \<le> rhe q"
  using rhe_mono [of "of_int k" q] by simp

lemma rhe_le: "q \<le> of_int k \<Longrightarrow> rhe q \<le> k"
  using rhe_mono [of q "of_int k"] by simp


lemma ulp_exp_minus [simp]: "ulp_exp p emin (- x) = ulp_exp p emin x"
  by (simp add: ulp_exp_def)

lemma ulp_exp_ge_emin: "emin \<le> ulp_exp p emin x"
  by (simp add: ulp_exp_def)

lemma ulp_exp_ge_ilog2: "ilog2 \<bar>x\<bar> - (int p - 1) \<le> ulp_exp p emin x"
  by (simp add: ulp_exp_def)

lemma ulp_exp_mono: "0 < x \<Longrightarrow> x \<le> y \<Longrightarrow> ulp_exp p emin x \<le> ulp_exp p emin y"
  using ilog2_mono [of x y] by (simp add: ulp_exp_def max_def)

lemma rnd_zero [simp]: "rnd p emin 0 = 0"
  by (simp add: rnd_def)

lemma rnd_minus: "rnd p emin (- x) = - rnd p emin x"
  by (simp add: rnd_def Let_def rhe_minus)

lemma rnd_pos_eq:
  "x \<noteq> 0 \<Longrightarrow> rnd p emin x = of_int (rhe (x / 2 powi ulp_exp p emin x)) * 2 powi ulp_exp p emin x"
  by (simp add: rnd_def Let_def)

lemma rnd_nonneg: "0 \<le> x \<Longrightarrow> 0 \<le> rnd p emin x"
proof (cases "x = 0")
  case False
  assume "0 \<le> x"
  then have "real_of_int 0 \<le> x / 2 powi ulp_exp p emin x"
    by simp
  then have "0 \<le> rhe (x / 2 powi ulp_exp p emin x)"
    by (rule rhe_ge)
  then show ?thesis
    using False by (simp add: rnd_pos_eq)
qed simp

lemma rnd_upper:
  assumes "0 < x"
  shows "rnd p emin x \<le> 2 powi (ulp_exp p emin x + int p)"
proof -
  let ?e = "ulp_exp p emin x"
  have "ilog2 x + 1 \<le> ?e + int p"
    using ulp_exp_ge_ilog2 [of x p emin] assms by simp
  then have "(2::real) powi (ilog2 x + 1) \<le> 2 powi (?e + int p)"
    by (rule two_powi_le)
  then have "x \<le> 2 powi ?e * 2 ^ p"
    using ilog2_bounds(2) [OF assms] by (simp add: two_powi_add)
  then have "x / 2 powi ?e \<le> 2 ^ p"
    by (simp add: field_simps)
  then have "x / 2 powi ?e \<le> real_of_int (2 ^ p)"
    by simp
  then have "rhe (x / 2 powi ?e) \<le> 2 ^ p"
    by (rule rhe_le)
  then have "real_of_int (rhe (x / 2 powi ?e)) \<le> 2 ^ p"
    by (simp only: of_int_le_numeral_power_cancel_iff)
  then have "real_of_int (rhe (x / 2 powi ?e)) * 2 powi ?e \<le> 2 ^ p * 2 powi ?e"
    by (simp add: mult_right_mono)
  then show ?thesis
    using assms by (simp add: rnd_pos_eq two_powi_add mult.commute)
qed

lemma rnd_lower:
  assumes "0 < x" and "0 < p" and "ulp_exp p emin x = ilog2 x - (int p - 1)"
  shows "2 powi (ulp_exp p emin x + int p - 1) \<le> rnd p emin x"
proof -
  let ?e = "ulp_exp p emin x"
  have pw: "(2::real) powi (int p - 1) = 2 ^ (p - 1)"
    using assms(2) by (simp add: two_powi_nat nat_diff_distrib)
  have "ilog2 x = ?e + (int p - 1)"
    using assms(3) by simp
  then have "2 powi (?e + (int p - 1)) \<le> x"
    using ilog2_bounds(1) [OF assms(1)] by simp
  then have "2 powi ?e * 2 ^ (p - 1) \<le> x"
    by (simp add: two_powi_add pw)
  then have "2 ^ (p - 1) \<le> x / 2 powi ?e"
    by (simp add: field_simps)
  then have "real_of_int (2 ^ (p - 1)) \<le> x / 2 powi ?e"
    by simp
  then have "2 ^ (p - 1) \<le> rhe (x / 2 powi ?e)"
    by (rule rhe_ge)
  then have "2 ^ (p - 1) \<le> real_of_int (rhe (x / 2 powi ?e))"
    by (simp only: numeral_power_le_of_int_cancel_iff)
  then have "2 ^ (p - 1) * 2 powi ?e \<le> real_of_int (rhe (x / 2 powi ?e)) * 2 powi ?e"
    by (simp add: mult_right_mono)
  moreover have "(2::real) powi (?e + int p - 1) = 2 ^ (p - 1) * 2 powi ?e"
  proof -
    have "(2::real) powi (?e + int p - 1) = 2 powi (?e + (int p - 1))"
      by (simp add: algebra_simps)
    then show ?thesis
      by (simp only: two_powi_add pw mult.commute)
  qed
  ultimately show ?thesis
    using assms(1) by (simp add: rnd_pos_eq)
qed

lemma rnd_mono_pos:
  assumes "0 < p" and "0 < x" and "x \<le> y"
  shows "rnd p emin x \<le> rnd p emin y"
proof -
  let ?ex = "ulp_exp p emin x" and ?ey = "ulp_exp p emin y"
  have y: "0 < y"
    using assms by simp
  have le: "?ex \<le> ?ey"
    using assms by (simp add: ulp_exp_mono)
  show ?thesis
  proof (cases "?ex = ?ey")
    case True
    have "x / 2 powi ?ey \<le> y / 2 powi ?ey"
      using assms(3) by (simp add: divide_right_mono)
    then have "rhe (x / 2 powi ?ey) \<le> rhe (y / 2 powi ?ey)"
      by (rule rhe_mono)
    then have "real_of_int (rhe (x / 2 powi ?ey)) * 2 powi ?ey
        \<le> real_of_int (rhe (y / 2 powi ?ey)) * 2 powi ?ey"
      by (simp add: mult_right_mono)
    then show ?thesis
      using assms(2) y True by (simp add: rnd_pos_eq)
  next
    case False
    with le have lt: "?ex < ?ey"
      by simp
    then have "emin < ?ey"
      using ulp_exp_ge_emin [of emin p x] by simp
    then have n: "?ey = ilog2 y - (int p - 1)"
      using y by (simp add: ulp_exp_def max_def split: if_splits)
    have "rnd p emin x \<le> 2 powi (?ex + int p)"
      using assms(2) by (rule rnd_upper)
    also have "\<dots> \<le> 2 powi (?ey + int p - 1)"
      using lt by (intro two_powi_le) simp
    also have "\<dots> \<le> rnd p emin y"
      using y assms(1) n by (rule rnd_lower)
    finally show ?thesis .
  qed
qed

lemma rnd_mono:
  assumes "0 < p" and "x \<le> y"
  shows "rnd p emin x \<le> rnd p emin y"
proof -
  consider "0 < x" | "x \<le> 0" "0 \<le> y" | "y < 0"
    using assms(2) by linarith
  then show ?thesis
  proof cases
    case 1
    then show ?thesis
      using assms by (simp add: rnd_mono_pos)
  next
    case 2
    have "0 \<le> rnd p emin (- x)"
      using 2(1) by (intro rnd_nonneg) simp
    then have "rnd p emin x \<le> 0"
      by (simp add: rnd_minus)
    also have "0 \<le> rnd p emin y"
      using 2(2) by (rule rnd_nonneg)
    finally show ?thesis .
  next
    case 3
    have "rnd p emin (- y) \<le> rnd p emin (- x)"
      using assms 3 by (intro rnd_mono_pos) simp_all
    then show ?thesis
      by (simp add: rnd_minus)
  qed
qed

lemma rnd_exact:
  assumes "emin \<le> e" and "\<bar>m\<bar> < 2 ^ p"
  shows "rnd p emin (of_int m * 2 powi e) = of_int m * 2 powi e"
proof (cases "m = 0")
  case False
  define x where "x = real_of_int m * 2 powi e"
  define e' where "e' = ulp_exp p emin x"
  have nz: "x \<noteq> 0"
    using False by (simp add: x_def)
  have ax: "\<bar>x\<bar> = real_of_int \<bar>m\<bar> * 2 powi e"
    by (simp add: x_def abs_mult)
  have pos: "0 < \<bar>x\<bar>"
    using nz by simp
  have "real_of_int \<bar>m\<bar> < 2 ^ p"
    using assms(2) by (simp only: of_int_less_numeral_power_cancel_iff)
  then have "\<bar>x\<bar> < 2 ^ p * 2 powi e"
    unfolding ax by (simp add: mult_strict_right_mono)
  also have "\<dots> = 2 powi (int p + e)"
    by (simp add: two_powi_add)
  finally have "2 powi ilog2 \<bar>x\<bar> < (2::real) powi (int p + e)"
    using ilog2_bounds(1) [OF pos] by linarith
  then have "ilog2 \<bar>x\<bar> < int p + e"
    by (rule two_powi_less_cancel)
  then have le: "e' \<le> e"
    using assms(1) by (simp add: ulp_exp_def e'_def)
  define d where "d = nat (e - e')"
  have e: "e = e' + int d"
    using le by (simp add: d_def)
  have pw: "(2::real) powi e = 2 powi e' * 2 ^ d"
    by (subst e) (simp add: two_powi_add)
  have q: "x / 2 powi e' = real_of_int (m * 2 ^ d)"
    by (simp add: x_def pw)
  have "rnd p emin x = of_int (rhe (x / 2 powi e')) * 2 powi e'"
    unfolding e'_def using nz by (rule rnd_pos_eq)
  also have "\<dots> = real_of_int (m * 2 ^ d) * 2 powi e'"
    by (simp only: q rhe_of_int)
  also have "\<dots> = x"
    by (simp add: x_def pw)
  finally show ?thesis
    by (simp only: x_def)
qed simp

lemma rnd_two_powi:
  assumes "0 < p" and "emin \<le> k"
  shows "rnd p emin (2 powi k) = 2 powi k"
proof -
  have "(1::int) < 2 ^ p"
    using assms(1) by (simp add: one_less_power)
  then have "\<bar>1::int\<bar> < 2 ^ p"
    by simp
  with assms(2) have "rnd p emin (of_int 1 * 2 powi k) = of_int 1 * 2 powi k"
    by (rule rnd_exact)
  then show ?thesis
    by simp
qed

lemma rnd_abs_le:
  assumes "0 < p" and "emin \<le> k" and "\<bar>x\<bar> \<le> 2 powi k"
  shows "\<bar>rnd p emin x\<bar> \<le> 2 powi k"
proof -
  have "rnd p emin x \<le> rnd p emin (2 powi k)"
    using assms(1,3) by (intro rnd_mono) simp_all
  moreover have "rnd p emin (- x) \<le> rnd p emin (2 powi k)"
    using assms(1,3) by (intro rnd_mono) simp_all
  ultimately show ?thesis
    using rnd_two_powi [OF assms(1,2)] by (simp add: rnd_minus abs_le_iff)
qed

lemma fp_round_finite:
  assumes "0 < p" and "emin \<le> k" and "k < emax" and "\<bar>x\<bar> \<le> 2 powi k"
  shows "fp_round p emin emax x = Finite (rnd p emin x)"
proof -
  have "\<bar>rnd p emin x\<bar> \<le> 2 powi k"
    using assms(1,2,4) by (rule rnd_abs_le)
  also have "\<dots> < 2 powi emax"
    using assms(3) by (intro power_int_strict_increasing) simp_all
  finally show ?thesis
    by (simp add: fp_round_def)
qed

lemma round64_finite:
  "\<bar>x\<bar> \<le> 2 powi k \<Longrightarrow> - 1074 \<le> k \<Longrightarrow> k < 1024 \<Longrightarrow> round64 x = Finite (rnd 53 (- 1074) x)"
  unfolding round64_def by (rule fp_round_finite) simp_all

lemma round32_finite:
  "\<bar>x\<bar> \<le> 2 powi k \<Longrightarrow> - 149 \<le> k \<Longrightarrow> k < 128 \<Longrightarrow> round32 x = Finite (rnd 24 (- 149) x)"
  unfolding round32_def by (rule fp_round_finite) simp_all

lemma dyadic_abs_le:
  assumes "\<bar>m\<bar> < 2 ^ p"
  shows "\<bar>real_of_int m * 2 powi e\<bar> \<le> 2 powi (int p + e)"
proof -
  have "real_of_int \<bar>m\<bar> < 2 ^ p"
    using assms by (simp only: of_int_less_numeral_power_cancel_iff)
  then have "real_of_int \<bar>m\<bar> * 2 powi e \<le> 2 ^ p * 2 powi e"
    by (intro mult_right_mono) simp_all
  then show ?thesis
    by (simp add: abs_mult two_powi_add)
qed

lemma round64_dyadic:
  assumes "\<bar>m\<bar> < 2 ^ 53" and "- 1074 \<le> e" and "e \<le> 970"
  shows "round64 (of_int m * 2 powi e) = Finite (of_int m * 2 powi e)"
proof -
  have "\<bar>real_of_int m * 2 powi e\<bar> \<le> 2 powi (int 53 + e)"
    using assms(1) by (rule dyadic_abs_le)
  then have "round64 (of_int m * 2 powi e) = Finite (rnd 53 (- 1074) (of_int m * 2 powi e))"
    using assms(2,3) by (intro round64_finite [where k = "int 53 + e"]) simp_all
  then show ?thesis
    using assms(1,2) by (simp add: rnd_exact)
qed

lemma round32_dyadic:
  assumes "\<bar>m\<bar> < 2 ^ 24" and "- 149 \<le> e" and "e \<le> 103"
  shows "round32 (of_int m * 2 powi e) = Finite (of_int m * 2 powi e)"
proof -
  have "\<bar>real_of_int m * 2 powi e\<bar> \<le> 2 powi (int 24 + e)"
    using assms(1) by (rule dyadic_abs_le)
  then have "round32 (of_int m * 2 powi e) = Finite (rnd 24 (- 149) (of_int m * 2 powi e))"
    using assms(2,3) by (intro round32_finite [where k = "int 24 + e"]) simp_all
  then show ?thesis
    using assms(1,2) by (simp add: rnd_exact)
qed

lemma round64_int:
  assumes "\<bar>k\<bar> \<le> 2 ^ 53"
  shows "round64 (of_int k) = Finite (of_int k)"
proof (cases "\<bar>k\<bar> < 2 ^ 53")
  case True
  then show ?thesis
    using round64_dyadic [of k 0] by simp
next
  case False
  with assms have "k = 1 * 2 ^ 53 \<or> k = - 1 * 2 ^ 53"
    by linarith
  then show ?thesis
    using round64_dyadic [of 1 53] round64_dyadic [of "- 1" 53] by auto
qed

lemma round32_int:
  assumes "\<bar>k\<bar> < 2 ^ 24"
  shows "round32 (of_int k) = Finite (of_int k)"
  using assms round32_dyadic [of k 0] by simp


lemma isqrt_bounds:
  assumes "0 \<le> n"
  shows "0 \<le> isqrt n \<and> isqrt n * isqrt n \<le> n \<and> n < (isqrt n + 1) * (isqrt n + 1)"
  using assms
proof (induction n rule: isqrt.induct)
  case (1 n)
  show ?case
  proof (cases "n \<le> 0")
    case True
    with "1.prems" have "n = 0"
      by simp
    then show ?thesis
      by (simp add: isqrt.simps [of 0])
  next
    case False
    define s where "s = isqrt (n div 4)"
    have ih: "0 \<le> s" "s * s \<le> n div 4" "n div 4 < (s + 1) * (s + 1)"
      using "1.IH" [OF False] "1.prems" by (simp_all add: s_def)
    have lo: "4 * (s * s) \<le> n"
      using ih(2) by linarith
    have "n div 4 + 1 \<le> (s + 1) * (s + 1)"
      using ih(3) by simp
    then have hi: "n < 4 * ((s + 1) * (s + 1))"
      by linarith
    have eq: "isqrt n = (if (2 * s + 1) * (2 * s + 1) \<le> n then 2 * s + 1 else 2 * s)"
      using False by (subst isqrt.simps) (simp add: Let_def s_def)
    show ?thesis
    proof (cases "(2 * s + 1) * (2 * s + 1) \<le> n")
      case True
      have "n < (2 * s + 1 + 1) * (2 * s + 1 + 1)"
        using hi by (simp add: algebra_simps)
      then show ?thesis
        using True ih(1) by (simp add: eq)
    next
      case False
      have "2 * s * (2 * s) \<le> n"
        using lo by (simp add: algebra_simps)
      then show ?thesis
        using False ih(1) by (simp add: eq)
    qed
  qed
qed

lemma floor_sqrt_isqrt:
  assumes "0 \<le> y"
  shows "\<lfloor>sqrt y\<rfloor> = isqrt \<lfloor>y\<rfloor>"
proof -
  define f where "f = isqrt \<lfloor>y\<rfloor>"
  have n: "0 \<le> \<lfloor>y\<rfloor>"
    using assms by simp
  have f: "0 \<le> f" "f * f \<le> \<lfloor>y\<rfloor>" "\<lfloor>y\<rfloor> < (f + 1) * (f + 1)"
    using isqrt_bounds [OF n] by (simp_all add: f_def)
  have "real_of_int (f * f) \<le> y"
    using f(2) by linarith
  then have "(real_of_int f)\<^sup>2 \<le> y"
    by (simp add: power2_eq_square)
  then have lo: "real_of_int f \<le> sqrt y"
    using f(1) by (simp add: real_le_rsqrt)
  have "\<lfloor>y\<rfloor> + 1 \<le> (f + 1) * (f + 1)"
    using f(3) by simp
  then have "real_of_int (\<lfloor>y\<rfloor> + 1) \<le> real_of_int ((f + 1) * (f + 1))"
    by (simp only: of_int_le_iff)
  then have "y < (real_of_int f + 1)\<^sup>2"
    by (simp add: power2_eq_square) linarith
  then have hi: "sqrt y < real_of_int f + 1"
    using f(1) by (intro real_less_lsqrt) simp_all
  show ?thesis
    unfolding f_def [symmetric] using lo hi by linarith
qed

lemma ilog2_sqrt:
  assumes "0 < x"
  shows "ilog2 (sqrt x) = ilog2 x div 2"
proof (rule ilog2_unique)
  define k where "k = ilog2 x"
  define j where "j = k div 2"
  have k: "2 powi k \<le> x" "x < 2 powi (k + 1)"
    using ilog2_bounds [OF assms] by (simp_all add: k_def)
  have j: "2 * j \<le> k" "k + 1 \<le> 2 * (j + 1)"
    unfolding j_def by presburger+
  have "((2::real) powi j)\<^sup>2 = 2 powi (2 * j)"
    by (simp add: power2_eq_square two_powi_add [symmetric])
  also have "\<dots> \<le> 2 powi k"
    using j(1) by (rule two_powi_le)
  finally have "((2::real) powi j)\<^sup>2 \<le> x"
    using k(1) by linarith
  then show "2 powi (ilog2 x div 2) \<le> sqrt x"
    unfolding k_def [symmetric] j_def [symmetric] by (intro real_le_rsqrt)
  have "x < 2 powi (2 * (j + 1))"
    using k(2) two_powi_le [OF j(2)] by linarith
  also have "\<dots> = ((2::real) powi (j + 1))\<^sup>2"
    by (simp add: power2_eq_square two_powi_add [symmetric])
  finally show "sqrt x < 2 powi (ilog2 x div 2 + 1)"
    unfolding k_def [symmetric] j_def [symmetric] by (intro real_less_lsqrt) simp_all
qed

lemma rhe_sqrt:
  assumes "0 \<le> y"
  shows "rhe (sqrt y) = (let f = isqrt \<lfloor>y\<rfloor>; h = (of_int f + 1 / 2) * (of_int f + 1 / 2)
     in if y < h then f else if h < y then f + 1 else if even f then f else f + 1)"
proof -
  define f where "f = isqrt \<lfloor>y\<rfloor>"
  define h where "h = (real_of_int f + 1 / 2) * (real_of_int f + 1 / 2)"
  have fl: "\<lfloor>sqrt y\<rfloor> = f"
    using assms by (simp add: floor_sqrt_isqrt f_def)
  have f0: "0 \<le> f"
    using isqrt_bounds [of "\<lfloor>y\<rfloor>"] assms by (simp add: f_def)
  have h: "h = (real_of_int f + 1 / 2)\<^sup>2"
    by (simp add: h_def power2_eq_square)
  have hpos: "0 \<le> real_of_int f + 1 / 2"
    using f0 by simp
  have lt: "sqrt y - real_of_int f < 1 / 2 \<longleftrightarrow> y < h"
  proof
    assume "sqrt y - real_of_int f < 1 / 2"
    then have "sqrt y < real_of_int f + 1 / 2"
      by linarith
    then have "(sqrt y)\<^sup>2 < (real_of_int f + 1 / 2)\<^sup>2"
      using assms by (intro power_strict_mono) simp_all
    then show "y < h"
      using assms by (simp add: h)
  next
    assume "y < h"
    then have "sqrt y < real_of_int f + 1 / 2"
      unfolding h using hpos by (intro real_less_lsqrt) simp_all
    then show "sqrt y - real_of_int f < 1 / 2"
      by linarith
  qed
  have gt: "1 / 2 < sqrt y - real_of_int f \<longleftrightarrow> h < y"
  proof
    assume "1 / 2 < sqrt y - real_of_int f"
    then have "real_of_int f + 1 / 2 < sqrt y"
      by linarith
    then have "(real_of_int f + 1 / 2)\<^sup>2 < (sqrt y)\<^sup>2"
      using hpos by (intro power_strict_mono) simp_all
    then show "h < y"
      using assms by (simp add: h)
  next
    assume "h < y"
    then have "real_of_int f + 1 / 2 < sqrt y"
      unfolding h using hpos by (intro real_less_rsqrt) simp_all
    then show "1 / 2 < sqrt y - real_of_int f"
      by linarith
  qed
  show ?thesis
    unfolding rhe_def Let_def fl f_def [symmetric] h_def [symmetric] lt gt ..
qed

lemma rnd_sqrt_eq:
  assumes "0 < x"
  shows "rnd_sqrt p emin x = rnd p emin (sqrt x)"
proof -
  define e where "e = max (ilog2 x div 2 - (int p - 1)) emin"
  define y where "y = x / 2 powi (2 * e)"
  have sx: "0 < sqrt x"
    using assms by simp
  have e: "ulp_exp p emin (sqrt x) = e"
    using sx assms by (simp add: ulp_exp_def e_def ilog2_sqrt)
  have y0: "0 \<le> y"
    using assms by (simp add: y_def)
  have "((2::real) powi e)\<^sup>2 = 2 powi (2 * e)"
    by (simp add: power2_eq_square two_powi_add [symmetric])
  then have "y = x / ((2::real) powi e)\<^sup>2"
    by (simp add: y_def)
  then have "sqrt y = sqrt x / 2 powi e"
    by (simp add: real_sqrt_divide)
  then have "rhe (sqrt x / 2 powi e) = rhe (sqrt y)"
    by simp
  also note rhe_sqrt [OF y0]
  finally have r: "rhe (sqrt x / 2 powi e) = (let f = isqrt \<lfloor>y\<rfloor>; h = (of_int f + 1 / 2) * (of_int f + 1 / 2)
     in if y < h then f else if h < y then f + 1 else if even f then f else f + 1)" .
  have "rnd p emin (sqrt x) = of_int (rhe (sqrt x / 2 powi e)) * 2 powi e"
    using sx rnd_pos_eq [of "sqrt x" p emin] by (simp add: e)
  also have "\<dots> = rnd_sqrt p emin x"
    using assms unfolding r by (simp add: rnd_sqrt_def Let_def e_def y_def)
  finally show ?thesis ..
qed

lemma rnd_sqrt_zero [simp]: "rnd_sqrt p emin 0 = 0"
  by (simp add: rnd_sqrt_def)

lemma rnd_sqrt_eq': "0 \<le> x \<Longrightarrow> rnd_sqrt p emin x = rnd p emin (sqrt x)"
  by (cases "x = 0") (simp_all add: rnd_sqrt_eq)

lemma rnd_sqrt_nonneg: "0 \<le> rnd_sqrt p emin x"
proof (cases "0 \<le> x")
  case True
  then show ?thesis
    by (simp add: rnd_sqrt_eq' rnd_nonneg)
next
  case False
  then show ?thesis
    by (simp add: rnd_sqrt_def)
qed

lemma rnd_sqrt_square: "0 \<le> q \<Longrightarrow> rnd_sqrt p emin (q * q) = rnd p emin q"
  by (simp add: rnd_sqrt_eq')

lemma rnd_scaled:
  assumes "of_int \<lfloor>x * 2 ^ k\<rfloor> = x * 2 ^ k" and "\<bar>\<lfloor>x * 2 ^ k\<rfloor>\<bar> < 2 ^ p" and "emin \<le> - int k"
  shows "rnd p emin x = x"
proof -
  have "x = of_int \<lfloor>x * 2 ^ k\<rfloor> * 2 powi (- int k)"
    by (simp add: assms(1) power_int_minus)
  moreover have "rnd p emin (of_int \<lfloor>x * 2 ^ k\<rfloor> * 2 powi (- int k)) = of_int \<lfloor>x * 2 ^ k\<rfloor> * 2 powi (- int k)"
    using assms(3,2) by (rule rnd_exact)
  ultimately show ?thesis
    by simp
qed

lemma round64_scaled:
  assumes "of_int \<lfloor>x * 2 ^ k\<rfloor> = x * 2 ^ k" and "\<bar>\<lfloor>x * 2 ^ k\<rfloor>\<bar> < 2 ^ 53" and "k \<le> 1074"
  shows "round64 x = Finite x"
proof -
  have "x = of_int \<lfloor>x * 2 ^ k\<rfloor> * 2 powi (- int k)"
    by (simp add: assms(1) power_int_minus)
  moreover have "round64 (of_int \<lfloor>x * 2 ^ k\<rfloor> * 2 powi (- int k)) = Finite (of_int \<lfloor>x * 2 ^ k\<rfloor> * 2 powi (- int k))"
    using assms(2,3) by (intro round64_dyadic) simp_all
  ultimately show ?thesis
    by simp
qed

lemma round32_scaled:
  assumes "of_int \<lfloor>x * 2 ^ k\<rfloor> = x * 2 ^ k" and "\<bar>\<lfloor>x * 2 ^ k\<rfloor>\<bar> < 2 ^ 24" and "k \<le> 149"
  shows "round32 x = Finite x"
proof -
  have "x = of_int \<lfloor>x * 2 ^ k\<rfloor> * 2 powi (- int k)"
    by (simp add: assms(1) power_int_minus)
  moreover have "round32 (of_int \<lfloor>x * 2 ^ k\<rfloor> * 2 powi (- int k)) = Finite (of_int \<lfloor>x * 2 ^ k\<rfloor> * 2 powi (- int k))"
    using assms(2,3) by (intro round32_dyadic) simp_all
  ultimately show ?thesis
    by simp
qed

lemma uint_byte_bounds: "0 \<le> uint (v :: 8 word)" "uint (v :: 8 word) \<le> 255"
  using uint_lt2p [of v] by simp_all

lemma double_of_byte: "double_of_int (uint (v :: 8 word)) = Finite (of_int (uint v))"
  unfolding double_of_int_def using uint_byte_bounds [of v] by (intro round64_int) simp

lemma foldl_add_sample_exact:
  assumes "0 \<le> s" and "s + sum_list (map uint vs) \<le> 2 ^ 53"
  shows "foldl add_sample (Finite (of_int s)) vs = Finite (of_int (s + sum_list (map uint vs)))"
  using assms
proof (induction vs arbitrary: s)
  case Nil
  then show ?case by simp
next
  case (Cons v vs)
  have nn: "0 \<le> sum_list (map uint vs)"
    by (rule sum_list_nonneg) auto
  have b: "0 \<le> s + uint v" "s + uint v \<le> 2 ^ 53"
    using Cons.prems nn uint_byte_bounds [of v] by simp_all
  have "add_sample (Finite (of_int s)) v = round64 (of_int (s + uint v))"
    by (simp add: add_sample_def double_of_byte)
  also have "\<dots> = Finite (of_int (s + uint v))"
    using b by (intro round64_int) simp
  finally have step: "add_sample (Finite (of_int s)) v = Finite (of_int (s + uint v))" .
  have "foldl add_sample (Finite (of_int (s + uint v))) vs
      = Finite (of_int (s + uint v + sum_list (map uint vs)))"
    using Cons.prems b(1) by (intro Cons.IH) (simp_all add: add.assoc)
  then show ?case
    by (simp add: step add.assoc)
qed

lemma spec_mean_exact:
  assumes "sample_sum buf w h rs \<le> 2 ^ 53" and "0 < w * h" and "int w * int h \<le> 2 ^ 53"
  shows "spec_mean buf w h rs = round64 (of_int (sample_sum buf w h rs) / of_int (int w * int h))"
proof -
  have "foldl add_sample (Finite (of_int 0)) (region buf w h rs)
      = Finite (of_int (0 + sum_list (map uint (region buf w h rs))))"
    using assms(1) by (intro foldl_add_sample_exact) (simp_all add: sample_sum_def)
  then have s: "foldl add_sample (Finite 0) (region buf w h rs) = Finite (of_int (sample_sum buf w h rs))"
    by (simp add: sample_sum_def)
  have n: "double_of_int (int w * int h) = Finite (of_int (int w * int h))"
    unfolding double_of_int_def using assms(3) by (intro round64_int) simp
  have "real_of_int (int w * int h) \<noteq> 0"
    using assms(2) by simp
  then show ?thesis
    unfolding spec_mean_def s n by simp
qed

lemmas fp_eval = spec_mean_def spec_stddev_def add_sample_def add_deviation_def dsub_def
  double_of_int_def region_def dim_def upt_rec

lemma rnd_by_bounds:
  assumes "2 powi k \<le> \<bar>x\<bar>" and "\<bar>x\<bar> < 2 powi (k + 1)" and "emin \<le> k - (int p - 1)"
    and "\<bar>x / 2 powi (k - (int p - 1)) - of_int n\<bar> < 1 / 2 \<or>
         (\<bar>x / 2 powi (k - (int p - 1)) - of_int n\<bar> = 1 / 2 \<and> even n)"
  shows "rnd p emin x = of_int n * 2 powi (k - (int p - 1))"
proof -
  have "ilog2 \<bar>x\<bar> = k"
    using assms(1,2) by (rule ilog2_unique)
  then have e: "ulp_exp p emin x = k - (int p - 1)"
    using assms(3) by (simp add: ulp_exp_def)
  have "x \<noteq> 0"
    using assms(1) two_powi_pos [of k] by linarith
  moreover have "rhe (x / 2 powi (k - (int p - 1))) = n"
    using assms(4) by (rule rhe_unique)
  ultimately show ?thesis
    by (simp add: rnd_pos_eq e)
qed

subsection \<open>\<open>rnd\<close> is rounding to nearest, ties to even\<close>

lemma rhe_nearest: "\<bar>q - of_int (rhe q)\<bar> \<le> \<bar>q - of_int k\<bar>"
proof (cases "k = rhe q")
  case False
  then have "1 \<le> \<bar>k - rhe q\<bar>"
    by linarith
  then have "1 \<le> \<bar>real_of_int k - real_of_int (rhe q)\<bar>"
    by linarith
  then show ?thesis
    using rhe_near [of q] by linarith
qed simp

lemma rhe_tie:
  assumes "k \<noteq> rhe q" and "\<bar>q - of_int k\<bar> = \<bar>q - of_int (rhe q)\<bar>"
  shows "even (rhe q)"
proof -
  have "1 \<le> \<bar>k - rhe q\<bar>"
    using assms(1) by linarith
  then have "1 \<le> \<bar>real_of_int k - real_of_int (rhe q)\<bar>"
    by linarith
  then have "\<bar>q - of_int (rhe q)\<bar> = 1 / 2"
    using rhe_near [of q] assms(2) by linarith
  then show ?thesis
    by (rule rhe_tie_even)
qed

text \<open>The scaled significand of a positive real and its rounding.\<close>

lemma quotient_bounds:
  assumes "0 < x"
  shows "0 \<le> rhe (x / 2 powi ulp_exp p emin x)" and "rhe (x / 2 powi ulp_exp p emin x) \<le> 2 ^ p"
proof -
  let ?e = "ulp_exp p emin x"
  have "real_of_int 0 \<le> x / 2 powi ?e"
    using assms by simp
  then show "0 \<le> rhe (x / 2 powi ?e)"
    by (rule rhe_ge)
  have "ilog2 x + 1 \<le> ?e + int p"
    using ulp_exp_ge_ilog2 [of x p emin] assms by simp
  then have "(2::real) powi (ilog2 x + 1) \<le> 2 powi (?e + int p)"
    by (rule two_powi_le)
  then have "x \<le> 2 powi ?e * 2 ^ p"
    using ilog2_bounds(2) [OF assms] by (simp add: two_powi_add)
  then have "x / 2 powi ?e \<le> 2 ^ p"
    by (simp add: field_simps)
  then have "x / 2 powi ?e \<le> real_of_int (2 ^ p)"
    by simp
  then show "rhe (x / 2 powi ?e) \<le> 2 ^ p"
    by (rule rhe_le)
qed

lemma quotient_normal:
  assumes "0 < x" and "0 < p" and "emin < ulp_exp p emin x"
  shows "2 powi (ulp_exp p emin x + int p - 1) \<le> x"
    and "2 ^ (p - 1) \<le> rhe (x / 2 powi ulp_exp p emin x)"
proof -
  let ?e = "ulp_exp p emin x"
  have n: "?e = ilog2 x - (int p - 1)"
    using assms(1,3) by (simp add: ulp_exp_def max_def split: if_splits)
  have pw: "(2::real) powi (int p - 1) = 2 ^ (p - 1)"
    using assms(2) by (simp add: two_powi_nat nat_diff_distrib)
  have "ilog2 x = ?e + int p - 1"
    using n by simp
  then show lo: "2 powi (?e + int p - 1) \<le> x"
    using ilog2_bounds(1) [OF assms(1)] by simp
  have "(2::real) powi (?e + int p - 1) = 2 powi ?e * 2 powi (int p - 1)"
    by (simp add: two_powi_add [symmetric] algebra_simps)
  then have "2 powi ?e * 2 ^ (p - 1) \<le> x"
    using lo by (simp add: pw)
  then have "2 ^ (p - 1) \<le> x / 2 powi ?e"
    by (simp add: field_simps)
  then have "real_of_int (2 ^ (p - 1)) \<le> x / 2 powi ?e"
    by simp
  then show "2 ^ (p - 1) \<le> rhe (x / 2 powi ?e)"
    by (rule rhe_ge)
qed

lemma is_float_minus: "is_float p emin (- v) = is_float p emin v"
proof -
  have "is_float p emin (- v)" if "is_float p emin v" for v
  proof -
    from that obtain m e where "v = of_int m * 2 powi e" "\<bar>m\<bar> < 2 ^ p" "emin \<le> e"
      unfolding is_float_def by blast
    then have "- v = of_int (- m) * 2 powi e \<and> \<bar>- m\<bar> < 2 ^ p \<and> emin \<le> e"
      by simp
    then show ?thesis
      unfolding is_float_def by blast
  qed
  from this [of v] this [of "- v"] show ?thesis
    by auto
qed

lemma even_float_minus: "even_float p emin (- v) = even_float p emin v"
proof -
  have "even_float p emin (- v)" if "even_float p emin v" for v
  proof -
    from that obtain m e where "v = of_int m * 2 powi e" "even m" "\<bar>m\<bar> < 2 ^ p" "emin \<le> e"
      "e = emin \<or> 2 ^ (p - 1) \<le> \<bar>m\<bar>"
      unfolding even_float_def by blast
    then have "- v = of_int (- m) * 2 powi e \<and> even (- m) \<and> \<bar>- m\<bar> < 2 ^ p \<and> emin \<le> e \<and>
        (e = emin \<or> 2 ^ (p - 1) \<le> \<bar>- m\<bar>)"
      by simp
    then show ?thesis
      unfolding even_float_def by blast
  qed
  from this [of v] this [of "- v"] show ?thesis
    by auto
qed

lemma rnd_is_float_pos:
  assumes "0 < p" and "0 < x"
  shows "is_float p emin (rnd p emin x)"
proof -
  let ?e = "ulp_exp p emin x"
  let ?n = "rhe (x / 2 powi ?e)"
  have r: "rnd p emin x = of_int ?n * 2 powi ?e"
    using assms(2) by (simp add: rnd_pos_eq)
  have n: "0 \<le> ?n" "?n \<le> 2 ^ p"
    using assms(2) by (rule quotient_bounds)+
  show ?thesis
  proof (cases "?n = 2 ^ p")
    case True
    have "rnd p emin x = of_int 1 * 2 powi (?e + int p)"
      unfolding r True by (simp add: two_powi_add mult.commute)
    moreover have "\<bar>1 :: int\<bar> < 2 ^ p"
      using assms(1) by (simp add: one_less_power)
    moreover have "emin \<le> ?e + int p"
      using ulp_exp_ge_emin [of emin p x] by simp
    ultimately show ?thesis
      unfolding is_float_def by blast
  next
    case False
    then have "\<bar>?n\<bar> < 2 ^ p"
      using n by simp
    then show ?thesis
      unfolding is_float_def using r ulp_exp_ge_emin [of emin p x] by blast
  qed
qed

lemma rnd_is_float:
  assumes "0 < p"
  shows "is_float p emin (rnd p emin x)"
proof -
  consider "x = 0" | "0 < x" | "0 < - x"
    by linarith
  then show ?thesis
  proof cases
    case 1
    have "(0::real) = of_int 0 * 2 powi emin \<and> \<bar>0::int\<bar> < 2 ^ p \<and> emin \<le> emin"
      by simp
    then have "is_float p emin 0"
      unfolding is_float_def by blast
    then show ?thesis
      using 1 by simp
  next
    case 2
    with assms show ?thesis
      by (rule rnd_is_float_pos)
  next
    case 3
    with assms have "is_float p emin (rnd p emin (- x))"
      by (rule rnd_is_float_pos)
    then show ?thesis
      by (simp add: rnd_minus is_float_minus)
  qed
qed


text \<open>A float on the grid of \<open>x\<close> (exponent at least that of \<open>x\<close>) is a multiple of the unit.\<close>

lemma float_on_grid:
  assumes "e \<le> e'"
  shows "\<exists>k. real_of_int m * 2 powi e' = of_int k * 2 powi e"
proof -
  define d where "d = nat (e' - e)"
  have "e' = e + int d"
    using assms by (simp add: d_def)
  then have "(2::real) powi e' = 2 powi e * 2 ^ d"
    by (simp add: two_powi_add)
  then have "real_of_int m * 2 powi e' = of_int (m * 2 ^ d) * 2 powi e"
    by simp
  then show ?thesis
    by blast
qed

lemma rnd_nearest_on_grid:
  assumes "x \<noteq> 0"
  shows "\<bar>x - rnd p emin x\<bar> \<le> \<bar>x - of_int k * 2 powi ulp_exp p emin x\<bar>"
proof -
  let ?e = "ulp_exp p emin x"
  let ?q = "x / 2 powi ?e"
  have "\<bar>x - of_int j * 2 powi ?e\<bar> = \<bar>?q - of_int j\<bar> * 2 powi ?e" for j
  proof -
    have "x - of_int j * 2 powi ?e = (?q - of_int j) * 2 powi ?e"
      by (simp add: field_simps)
    then show ?thesis
      by (simp add: abs_mult)
  qed
  then have "\<bar>x - of_int (rhe ?q) * 2 powi ?e\<bar> = \<bar>?q - of_int (rhe ?q)\<bar> * 2 powi ?e"
    and "\<bar>x - of_int k * 2 powi ?e\<bar> = \<bar>?q - of_int k\<bar> * 2 powi ?e"
    by blast+
  moreover have "\<bar>?q - of_int (rhe ?q)\<bar> * 2 powi ?e \<le> \<bar>?q - of_int k\<bar> * 2 powi ?e"
    using rhe_nearest [of ?q k] by (intro mult_right_mono) simp_all
  ultimately show ?thesis
    using assms by (simp add: rnd_pos_eq)
qed

lemma rnd_nearer_than_finer:
  assumes "0 < p" and "0 < x" and "\<bar>m\<bar> < 2 ^ p" and "e' < ulp_exp p emin x" and "emin \<le> e'"
  shows "\<bar>x - rnd p emin x\<bar> < \<bar>x - of_int m * 2 powi e'\<bar>"
proof -
  let ?e = "ulp_exp p emin x"
  let ?y = "real_of_int m * 2 powi e'"
  define B where "B = (2::real) powi (?e + int p - 1)"
  have normal: "emin < ?e"
    using assms(4,5) by simp
  have B: "B \<le> x"
    unfolding B_def using assms(2,1) normal by (rule quotient_normal(1))
  have "\<bar>?y\<bar> \<le> 2 powi (int p + e')"
    using assms(3) by (rule dyadic_abs_le)
  moreover have "real_of_int \<bar>m\<bar> < 2 ^ p"
    using assms(3) by (simp only: of_int_less_numeral_power_cancel_iff)
  then have "real_of_int \<bar>m\<bar> * 2 powi e' < 2 ^ p * 2 powi e'"
    by (intro mult_strict_right_mono) simp_all
  then have "\<bar>?y\<bar> < 2 powi (int p + e')"
    by (simp add: abs_mult two_powi_add)
  moreover have "(2::real) powi (int p + e') \<le> B"
    unfolding B_def using assms(4) by (intro two_powi_le) simp
  ultimately have y: "?y < B"
    by linarith
  have "B = of_int (2 ^ (p - 1)) * 2 powi ?e"
  proof -
    have "(2::real) powi (int p - 1) = 2 ^ (p - 1)"
      using assms(1) by (simp add: two_powi_nat nat_diff_distrib)
    moreover have "B = 2 powi ?e * 2 powi (int p - 1)"
      unfolding B_def by (simp add: two_powi_add [symmetric] algebra_simps)
    ultimately show ?thesis
      by simp
  qed
  moreover have "\<bar>x - rnd p emin x\<bar> \<le> \<bar>x - of_int (2 ^ (p - 1)) * 2 powi ?e\<bar>"
    using assms(2) by (intro rnd_nearest_on_grid) simp
  ultimately have "\<bar>x - rnd p emin x\<bar> \<le> \<bar>x - B\<bar>"
    by simp
  also have "\<dots> < \<bar>x - ?y\<bar>"
    using B y by linarith
  finally show ?thesis .
qed

lemma rnd_nearest_pos:
  assumes "0 < p" and "0 < x" and "is_float p emin y"
  shows "\<bar>x - rnd p emin x\<bar> \<le> \<bar>x - y\<bar>"
proof -
  obtain m e' where y: "y = of_int m * 2 powi e'" "\<bar>m\<bar> < 2 ^ p" "emin \<le> e'"
    using assms(3) unfolding is_float_def by blast
  show ?thesis
  proof (cases "ulp_exp p emin x \<le> e'")
    case True
    then obtain k where "y = of_int k * 2 powi ulp_exp p emin x"
      unfolding y(1) using float_on_grid by blast
    then show ?thesis
      using rnd_nearest_on_grid [of x p emin k] assms(2) by simp
  next
    case False
    then have "\<bar>x - rnd p emin x\<bar> < \<bar>x - y\<bar>"
      unfolding y(1) using assms(1,2) y(2,3) by (intro rnd_nearer_than_finer) simp_all
    then show ?thesis
      by simp
  qed
qed

lemma rnd_tie_pos:
  assumes "2 \<le> p" and "0 < x" and "is_float p emin y" and "y \<noteq> rnd p emin x"
    and "\<bar>x - y\<bar> = \<bar>x - rnd p emin x\<bar>"
  shows "even_float p emin (rnd p emin x)"
proof -
  let ?e = "ulp_exp p emin x"
  let ?q = "x / 2 powi ?e"
  let ?n = "rhe ?q"
  have p: "0 < p"
    using assms(1) by simp
  have r: "rnd p emin x = of_int ?n * 2 powi ?e"
    using assms(2) by (simp add: rnd_pos_eq)
  obtain m e' where y: "y = of_int m * 2 powi e'" "\<bar>m\<bar> < 2 ^ p" "emin \<le> e'"
    using assms(3) unfolding is_float_def by blast
  have "?e \<le> e'"
  proof (rule ccontr)
    assume "\<not> ?e \<le> e'"
    then have "\<bar>x - rnd p emin x\<bar> < \<bar>x - y\<bar>"
      unfolding y(1) using p assms(2) y(2,3) by (intro rnd_nearer_than_finer) simp_all
    with assms(5) show False
      by simp
  qed
  then obtain k where k: "y = of_int k * 2 powi ?e"
    unfolding y(1) using float_on_grid by blast
  have ne: "k \<noteq> ?n"
    using assms(4) k r by auto
  have dist: "\<bar>x - of_int j * 2 powi ?e\<bar> = \<bar>?q - of_int j\<bar> * 2 powi ?e" for j
  proof -
    have "x - of_int j * 2 powi ?e = (?q - of_int j) * 2 powi ?e"
      by (simp add: field_simps)
    then show ?thesis
      by (simp add: abs_mult)
  qed
  have "\<bar>?q - of_int k\<bar> * 2 powi ?e = \<bar>?q - of_int ?n\<bar> * 2 powi ?e"
    using assms(5) unfolding k r dist .
  then have "\<bar>?q - of_int k\<bar> = \<bar>?q - of_int ?n\<bar>"
    by simp
  with ne have ev: "even ?n"
    by (rule rhe_tie)
  have n: "0 \<le> ?n" "?n \<le> 2 ^ p"
    using assms(2) by (rule quotient_bounds)+
  show ?thesis
  proof (cases "?n = 2 ^ p")
    case True
    have "(2::real) ^ p = 2 ^ (p - 1) * 2"
      using p by (simp add: power_eq_if)
    then have "rnd p emin x = of_int (2 ^ (p - 1)) * 2 powi (?e + 1)"
      unfolding r True by (simp add: two_powi_add)
    moreover have "even ((2::int) ^ (p - 1))"
      using assms(1) by simp
    moreover have "\<bar>(2::int) ^ (p - 1)\<bar> < 2 ^ p"
      using p by simp
    moreover have "emin \<le> ?e + 1"
      using ulp_exp_ge_emin [of emin p x] by simp
    moreover have "(2::int) ^ (p - 1) \<le> \<bar>2 ^ (p - 1)\<bar>"
      by simp
    ultimately show ?thesis
      unfolding even_float_def by blast
  next
    case False
    then have lt: "\<bar>?n\<bar> < 2 ^ p"
      using n by simp
    have "?e = emin \<or> 2 ^ (p - 1) \<le> \<bar>?n\<bar>"
    proof (cases "?e = emin")
      case False
      then have "emin < ?e"
        using ulp_exp_ge_emin [of emin p x] by simp
      then have "2 ^ (p - 1) \<le> ?n"
        using assms(2) p by (intro quotient_normal(2))
      then have "2 ^ (p - 1) \<le> \<bar>?n\<bar>"
        by linarith
      then show ?thesis ..
    qed simp
    then show ?thesis
      unfolding even_float_def using r ev lt ulp_exp_ge_emin [of emin p x] by blast
  qed
qed

lemma nearest_even_minus:
  assumes "nearest_even p emin x v"
  shows "nearest_even p emin (- x) (- v)"
  unfolding nearest_even_def
proof (intro conjI allI impI)
  show "is_float p emin (- v)"
    using assms by (simp add: nearest_even_def is_float_minus)
  fix y
  {
    assume "is_float p emin y"
    then have "is_float p emin (- y)"
      by (simp add: is_float_minus)
    then have "\<bar>x - v\<bar> \<le> \<bar>x - (- y)\<bar>"
      using assms unfolding nearest_even_def by blast
    then show "\<bar>- x - - v\<bar> \<le> \<bar>- x - y\<bar>"
      by simp
  }
  {
    assume a: "is_float p emin y \<and> y \<noteq> - v \<and> \<bar>- x - y\<bar> = \<bar>- x - - v\<bar>"
    then have "is_float p emin (- y) \<and> - y \<noteq> v \<and> \<bar>x - (- y)\<bar> = \<bar>x - v\<bar>"
      by (auto simp add: is_float_minus)
    then have "even_float p emin v"
      using assms unfolding nearest_even_def by blast
    then show "even_float p emin (- v)"
      by (simp add: even_float_minus)
  }
qed

lemma rnd_nearest_even:
  assumes "2 \<le> p"
  shows "nearest_even p emin x (rnd p emin x)"
proof -
  have p: "0 < p"
    using assms by simp
  have pos: "nearest_even p emin x (rnd p emin x)" if "0 < x" for x
    unfolding nearest_even_def
    using rnd_is_float [OF p] rnd_nearest_pos [OF p that] rnd_tie_pos [OF assms that] by blast
  consider "x = 0" | "0 < x" | "0 < - x"
    by linarith
  then show ?thesis
  proof cases
    case 1
    then show ?thesis
      unfolding nearest_even_def using rnd_is_float [OF p, of emin 0] by simp
  next
    case 2
    then show ?thesis
      by (rule pos)
  next
    case 3
    then have "nearest_even p emin (- (- x)) (- rnd p emin (- x))"
      by (intro nearest_even_minus pos)
    then show ?thesis
      by (simp add: rnd_minus)
  qed
qed


lemma grid_eq_cancel:
  assumes "real_of_int k * 2 powi e = real_of_int m * 2 powi e'" and "e \<le> e'"
  shows "k = m * 2 ^ nat (e' - e)"
proof -
  define d where "d = nat (e' - e)"
  have "e' = e + int d"
    using assms(2) by (simp add: d_def)
  then have "(2::real) powi e' = 2 powi e * 2 ^ d"
    by (simp add: two_powi_add)
  then have "real_of_int k * 2 powi e = real_of_int (m * 2 ^ d) * 2 powi e"
    using assms(1) by simp
  then have "real_of_int k = real_of_int (m * 2 ^ d)"
    by simp
  then show ?thesis
    unfolding d_def by (simp only: of_int_eq_iff)
qed

lemma nearest_even_unique_pos:
  assumes "2 \<le> p" and "0 < x" and "nearest_even p emin x v"
  shows "v = rnd p emin x"
proof (rule ccontr)
  assume ne: "v \<noteq> rnd p emin x"
  let ?e = "ulp_exp p emin x"
  let ?q = "x / 2 powi ?e"
  let ?n = "rhe ?q"
  have p: "0 < p"
    using assms(1) by simp
  have r: "rnd p emin x = of_int ?n * 2 powi ?e"
    using assms(2) by (simp add: rnd_pos_eq)
  have fv: "is_float p emin v"
    and nv: "\<And>y. is_float p emin y \<Longrightarrow> \<bar>x - v\<bar> \<le> \<bar>x - y\<bar>"
    and tv: "\<And>y. is_float p emin y \<Longrightarrow> y \<noteq> v \<Longrightarrow> \<bar>x - y\<bar> = \<bar>x - v\<bar> \<Longrightarrow> even_float p emin v"
    using assms(3) unfolding nearest_even_def by blast+
  have fr: "is_float p emin (rnd p emin x)"
    using p by (rule rnd_is_float)
  have eq: "\<bar>x - v\<bar> = \<bar>x - rnd p emin x\<bar>"
    using nv [OF fr] rnd_nearest_pos [OF p assms(2) fv] by simp
  obtain m e' where v: "v = of_int m * 2 powi e'" "\<bar>m\<bar> < 2 ^ p" "emin \<le> e'"
    using fv unfolding is_float_def by blast
  have "?e \<le> e'"
  proof (rule ccontr)
    assume "\<not> ?e \<le> e'"
    then have "\<bar>x - rnd p emin x\<bar> < \<bar>x - v\<bar>"
      unfolding v(1) using p assms(2) v(2,3) by (intro rnd_nearer_than_finer) simp_all
    with eq show False
      by simp
  qed
  then obtain k where k: "v = of_int k * 2 powi ?e"
    unfolding v(1) using float_on_grid by blast
  have kn: "k \<noteq> ?n"
    using ne k r by auto
  have dist: "\<bar>x - of_int j * 2 powi ?e\<bar> = \<bar>?q - of_int j\<bar> * 2 powi ?e" for j
  proof -
    have "x - of_int j * 2 powi ?e = (?q - of_int j) * 2 powi ?e"
      by (simp add: field_simps)
    then show ?thesis
      by (simp add: abs_mult)
  qed
  have "\<bar>?q - of_int k\<bar> * 2 powi ?e = \<bar>?q - of_int ?n\<bar> * 2 powi ?e"
    using eq unfolding k r dist .
  then have qk: "\<bar>?q - of_int k\<bar> = \<bar>?q - of_int ?n\<bar>"
    by simp
  have evn: "even ?n"
    using kn qk by (rule rhe_tie)
  have "1 \<le> \<bar>k - ?n\<bar>"
    using kn by linarith
  then have "1 \<le> \<bar>real_of_int k - real_of_int ?n\<bar>"
    by linarith
  then have half: "\<bar>?q - of_int k\<bar> = 1 / 2" "\<bar>?q - of_int ?n\<bar> = 1 / 2"
    using rhe_near [of ?q] qk by linarith+
  then have "\<bar>real_of_int k - real_of_int ?n\<bar> = 1"
    using \<open>1 \<le> \<bar>real_of_int k - real_of_int ?n\<bar>\<close> by linarith
  then have "\<bar>k - ?n\<bar> = 1"
    by linarith
  then have oddk: "odd k"
    using evn by presburger
  have q0: "0 < ?q"
    using assms(2) by simp
  have kpos: "1 \<le> k"
  proof -
    have "- 1 < real_of_int k"
      using half(1) q0 by linarith
    then have "0 \<le> k"
      by linarith
    with oddk show ?thesis
      by (cases "k = 0") simp_all
  qed
  have "even_float p emin v"
    using fr ne [symmetric] eq [symmetric] by (rule tv)
  then obtain m2 e2 where m2: "v = of_int m2 * 2 powi e2" "even m2" "\<bar>m2\<bar> < 2 ^ p" "emin \<le> e2"
    unfolding even_float_def by blast
  have same: "real_of_int k * 2 powi ?e = real_of_int m2 * 2 powi e2"
    using k m2(1) by simp
  show False
  proof (cases "?e \<le> e2")
    case True
    have "k = m2 * 2 ^ nat (e2 - ?e)"
      using same True by (rule grid_eq_cancel)
    then have "even k"
      using m2(2) by simp
    with oddk show False ..
  next
    case False
    then have lt: "e2 < ?e"
      by simp
    have "m2 = k * 2 ^ nat (?e - e2)"
      using same [symmetric] by (rule grid_eq_cancel) (use lt in simp)
    moreover have "(2::int) ^ 1 \<le> 2 ^ nat (?e - e2)"
      using lt by (intro power_increasing) simp_all
    ultimately have big: "k * 2 \<le> m2"
      using kpos by (simp add: mult_left_mono)
    have normal: "emin < ?e"
      using lt m2(4) by simp
    have "2 powi (?e + int p - 1) \<le> x"
      using assms(2) p normal by (rule quotient_normal(1))
    moreover have "(2::real) powi (?e + int p - 1) = 2 powi ?e * 2 ^ (p - 1)"
    proof -
      have "(2::real) powi (int p - 1) = 2 ^ (p - 1)"
        using p by (simp add: two_powi_nat nat_diff_distrib)
      moreover have "(2::real) powi (?e + int p - 1) = 2 powi ?e * 2 powi (int p - 1)"
        by (simp add: two_powi_add [symmetric] algebra_simps)
      ultimately show ?thesis
        by simp
    qed
    ultimately have "2 ^ (p - 1) \<le> ?q"
      by (simp add: field_simps)
    then have "(2::real) ^ (p - 1) - 1 < real_of_int k"
      using half(1) by linarith
    then have "real_of_int (2 ^ (p - 1) - 1) < real_of_int k"
      by simp
    then have "2 ^ (p - 1) - 1 < k"
      by (simp only: of_int_less_iff)
    then have "2 ^ (p - 1) * 2 \<le> k * 2"
      by simp
    moreover have "(2::int) ^ (p - 1) * 2 = 2 ^ p"
      using p by (simp add: power_eq_if)
    ultimately have "2 ^ p \<le> m2"
      using big by linarith
    with m2(3) show False
      by linarith
  qed
qed

lemma nearest_even_unique:
  assumes "2 \<le> p" and "nearest_even p emin x v"
  shows "v = rnd p emin x"
proof -
  consider "x = 0" | "0 < x" | "0 < - x"
    by linarith
  then show ?thesis
  proof cases
    case 1
    have "is_float p emin (rnd p emin 0)"
      using assms(1) by (intro rnd_is_float) simp
    then have "is_float p emin 0"
      by simp
    then have "\<bar>x - v\<bar> \<le> \<bar>x - 0\<bar>"
      using assms(2) unfolding nearest_even_def by blast
    then show ?thesis
      using 1 by simp
  next
    case 2
    with assms show ?thesis
      by (intro nearest_even_unique_pos)
  next
    case 3
    have "nearest_even p emin (- x) (- v)"
      using assms(2) by (rule nearest_even_minus)
    with assms(1) 3 have "- v = rnd p emin (- x)"
      by (intro nearest_even_unique_pos)
    then show ?thesis
      by (simp add: rnd_minus)
  qed
qed

lemma nearest_even_iff: "2 \<le> p \<Longrightarrow> nearest_even p emin x v \<longleftrightarrow> v = rnd p emin x"
  using nearest_even_unique rnd_nearest_even by blast

section \<open>Machine integers\<close>

lemma sint_scast_32_64: "sint (scast (w :: 32 word) :: 64 word) = sint w"
  by (rule sint_up_scast) (simp add: is_up)

lemma sint_product_exact:
  fixes u v :: "32 word"
  shows "sint ((scast u :: 64 word) * scast v) = sint u * sint v"
proof -
  have bu: "\<bar>sint u\<bar> \<le> 2 ^ 31"
    using sint_lt [of u] sint_ge [of u] by simp
  have bv: "\<bar>sint v\<bar> \<le> 2 ^ 31"
    using sint_lt [of v] sint_ge [of v] by simp
  have "\<bar>sint u * sint v\<bar> \<le> 2 ^ 31 * 2 ^ 31"
    unfolding abs_mult by (rule mult_mono [OF bu bv]) simp_all
  then have "- (2 ^ 63) \<le> sint u * sint v" "sint u * sint v < 2 ^ 63"
    by simp_all
  then have "signed_take_bit 63 (sint u * sint v) = sint u * sint v"
    by (simp add: signed_take_bit_int_eq_self)
  then show ?thesis
    by (simp add: sint_word_ariths sint_scast_32_64)
qed

text \<open>
  C8. The sample count \<open>n = (int64_t)width * height\<close> and every row offset
  \<open>(int64_t)y * rowStride\<close> are the exact integer products of their 32-bit operands:
  the 64-bit multiplication never wraps, whatever the operands.
\<close>

theorem products_exact_in_int64:
  "sint (sample_count width height) = sint width * sint height \<and>
   sint (row_offset y rowStride) = sint y * sint rowStride"
  by (simp add: sample_count_def row_offset_def sint_product_exact)

text \<open>The count of a \<open>65536 x 65536\<close> image, beyond the range of a 32-bit \<open>int\<close>.\<close>

lemma sample_count_beyond_int32: "sint (sample_count 65536 65536) = 2 ^ 32"
  by (simp add: sample_count_def sint_product_exact)

section \<open>The loops as folds over the region\<close>

lemma for_loop_foldE:
  "0 \<le> sint i \<Longrightarrow> sint i \<le> sint bound \<Longrightarrow>
   for_loop i bound body s = foldE body (map word_of_nat [nat (sint i) ..< nat (sint bound)]) s"
proof (induction i bound body s rule: for_loop.induct)
  case (1 i bound body s)
  show ?case
  proof (cases "i <s bound")
    case True
    then have lt: "sint i < sint bound"
      by (simp add: word_sless_alt)
    have "sint bound < 2 ^ 31" and "- (2 ^ 31) \<le> sint i"
      using sint_lt [of bound] sint_ge [of i] by simp_all
    with lt have "- (2 ^ 31) \<le> sint i + 1" and "sint i + 1 < 2 ^ 31"
      by linarith+
    then have "signed_take_bit 31 (sint i + 1) = sint i + 1"
      by (simp add: signed_take_bit_int_eq_self)
    then have succ: "sint (i + 1) = sint i + 1"
      by (simp add: sint_word_ariths)
    have i_eq: "word_of_nat (nat (sint i)) = i"
      using "1.prems"(1) by simp
    have upt: "[nat (sint i) ..< nat (sint bound)] = nat (sint i) # [nat (sint (i + 1)) ..< nat (sint bound)]"
      using lt "1.prems"(1) succ by (simp add: upt_conv_Cons nat_add_distrib)
    show ?thesis
    proof (cases "body i s")
      case (Inl e)
      then show ?thesis
        using True upt i_eq by (simp add: for_loop.simps [of i])
    next
      case (Inr s')
      have "for_loop (i + 1) bound body s'
          = foldE body (map word_of_nat [nat (sint (i + 1)) ..< nat (sint bound)]) s'"
        using "1.IH" [OF True Inr] succ lt "1.prems"(1) by simp
      then show ?thesis
        using True upt i_eq Inr by (simp add: for_loop.simps [of i])
    qed
  next
    case False
    then have "sint bound \<le> sint i"
      by (simp add: word_sless_alt)
    then show ?thesis
      using False by (simp add: for_loop.simps [of i])
  qed
qed

lemma for_loop_from_zero:
  "0 \<le> sint bound \<Longrightarrow> for_loop 0 bound body s = foldE body (map word_of_nat [0 ..< dim bound]) s"
  using for_loop_foldE [of 0 bound body s] by (simp add: dim_def)

lemma sint_word_of_nat_32:
  assumes "n < 2 ^ 31"
  shows "sint (word_of_nat n :: 32 word) = int n"
proof -
  have "int n < 2 ^ 31"
    using assms by (metis of_nat_less_iff of_nat_numeral of_nat_power)
  then have "signed_take_bit 31 (int n) = int n"
    by (simp add: signed_take_bit_int_eq_self)
  moreover have "(word_of_nat n :: 32 word) = word_of_int (int n)"
    by simp
  ultimately show ?thesis
    by (simp only: sint_sbintrunc') simp
qed

lemma dim_bounds: "dim w < 2 ^ 31"
proof -
  have "sint w < 2 ^ 31"
    using sint_lt [of w] by simp
  then show ?thesis
    by (simp add: dim_def nat_less_iff)
qed

lemma load_in_bounds: "i < length buf \<Longrightarrow> load (Some buf) (int i) = Inr (buf ! i)"
  by (simp add: load_def)

lemma foldE_read_step:
  assumes "\<forall>x \<in> set xs. x < 2 ^ 31 \<and> 0 \<le> sint row \<and> nat (sint row) + x < length buf"
  shows "foldE (read_step upd (Some buf) row) (map word_of_nat xs) (acc, rd)
    = Inr (foldl upd acc (map (\<lambda>x. buf ! (nat (sint row) + x)) xs),
           rd @ map (\<lambda>x. int (nat (sint row) + x)) xs)"
  using assms
proof (induction xs arbitrary: acc rd)
  case Nil
  then show ?case by simp
next
  case (Cons x xs)
  then have x: "x < 2 ^ 31" "0 \<le> sint row" "nat (sint row) + x < length buf"
    by simp_all
  have sx: "sint (word_of_nat x :: 32 word) = int x"
    using x(1) by (rule sint_word_of_nat_32)
  have idx: "sint row + int x = int (nat (sint row) + x)"
    using x(2) by simp
  have ld: "load (Some buf) (sint row + sint (word_of_nat x :: 32 word)) = Inr (buf ! (nat (sint row) + x))"
    unfolding sx idx using x(3) by (rule load_in_bounds)
  have step: "read_step upd (Some buf) row (word_of_nat x) (acc, rd)
      = Inr (upd acc (buf ! (nat (sint row) + x)), rd @ [int (nat (sint row) + x)])"
    unfolding read_step_def prod.case ld sum.case by (simp only: sx idx)
  have "foldE (read_step upd (Some buf) row) (map word_of_nat xs)
        (upd acc (buf ! (nat (sint row) + x)), rd @ [int (nat (sint row) + x)])
    = Inr (foldl upd (upd acc (buf ! (nat (sint row) + x))) (map (\<lambda>x. buf ! (nat (sint row) + x)) xs),
           (rd @ [int (nat (sint row) + x)]) @ map (\<lambda>x. int (nat (sint row) + x)) xs)"
    using Cons.prems by (intro Cons.IH) simp
  then show ?case
    by (simp add: step)
qed


lemma region_index_bound:
  assumes "(sint height - 1) * sint rowStride + sint width \<le> int (length buf)"
    and "0 < sint rowStride" and "y < dim height" and "x < dim width"
  shows "y * dim rowStride + x < length buf"
proof -
  have y: "int y \<le> sint height - 1" and x: "int x < sint width"
    using assms(3,4) by (simp_all add: dim_def)
  have "int y * sint rowStride \<le> (sint height - 1) * sint rowStride"
    using y assms(2) by (intro mult_right_mono) simp_all
  with x assms(1) have "int y * sint rowStride + int x < int (length buf)"
    by linarith
  moreover have "int (y * dim rowStride + x) = int y * sint rowStride + int x"
    using assms(2) by (simp add: dim_def)
  ultimately show ?thesis
    by linarith
qed

lemma row_offset_nat:
  assumes "0 < sint rowStride" and "y < dim height"
  shows "sint (row_offset (word_of_nat y) rowStride) = int (y * dim rowStride)"
proof -
  have "y < 2 ^ 31"
    using assms(2) dim_bounds [of height] by simp
  then have "sint (word_of_nat y :: 32 word) = int y"
    by (rule sint_word_of_nat_32)
  then show ?thesis
    using assms(1) by (simp add: row_offset_def sint_product_exact dim_def)
qed

lemma inner_loop_region:
  assumes "(sint height - 1) * sint rowStride + sint width \<le> int (length buf)"
    and "0 < sint rowStride" and "0 < sint width" and "y < dim height"
  shows "for_loop 0 width (read_step upd (Some buf) (row_offset (word_of_nat y) rowStride)) (acc, rd)
    = Inr (foldl upd acc (map (\<lambda>x. buf ! (y * dim rowStride + x)) [0..<dim width]),
           rd @ map (\<lambda>x. int (y * dim rowStride + x)) [0..<dim width])"
proof -
  let ?row = "row_offset (word_of_nat y) rowStride"
  have row: "sint ?row = int (y * dim rowStride)"
    using assms(2,4) by (rule row_offset_nat)
  have nrow: "nat (sint ?row) = y * dim rowStride"
    unfolding row by (rule nat_int)
  have row0: "0 \<le> sint ?row"
    unfolding row by (rule of_nat_0_le_iff)
  have "\<forall>x \<in> set [0..<dim width]. x < 2 ^ 31 \<and> 0 \<le> sint ?row \<and> nat (sint ?row) + x < length buf"
  proof
    fix x assume "x \<in> set [0..<dim width]"
    then have x: "x < dim width"
      by simp
    then have "x < 2 ^ 31"
      using dim_bounds [of width] by simp
    moreover have "y * dim rowStride + x < length buf"
      using assms(1,2,4) x by (rule region_index_bound)
    ultimately show "x < 2 ^ 31 \<and> 0 \<le> sint ?row \<and> nat (sint ?row) + x < length buf"
      using row0 nrow by simp
  qed
  then have "foldE (read_step upd (Some buf) ?row) (map word_of_nat [0..<dim width]) (acc, rd)
    = Inr (foldl upd acc (map (\<lambda>x. buf ! (nat (sint ?row) + x)) [0..<dim width]),
           rd @ map (\<lambda>x. int (nat (sint ?row) + x)) [0..<dim width])"
    by (rule foldE_read_step)
  moreover have "for_loop 0 width (read_step upd (Some buf) ?row) (acc, rd)
    = foldE (read_step upd (Some buf) ?row) (map word_of_nat [0..<dim width]) (acc, rd)"
    using assms(3) by (intro for_loop_from_zero) simp
  ultimately show ?thesis
    by (simp only: nrow)
qed

lemma outer_fold_region:
  assumes "(sint height - 1) * sint rowStride + sint width \<le> int (length buf)"
    and "0 < sint rowStride" and "0 < sint width" and "\<forall>y \<in> set ys. y < dim height"
  shows "foldE (\<lambda>y. for_loop 0 width (read_step upd (Some buf) (row_offset y rowStride)))
      (map word_of_nat ys) (acc, rd)
    = Inr (foldl upd acc (concat (map (\<lambda>y. map (\<lambda>x. buf ! (y * dim rowStride + x)) [0..<dim width]) ys)),
           rd @ concat (map (\<lambda>y. map (\<lambda>x. int (y * dim rowStride + x)) [0..<dim width]) ys))"
  using assms(4)
proof (induction ys arbitrary: acc rd)
  case Nil
  then show ?case by simp
next
  case (Cons y ys)
  then have y: "y < dim height"
    by simp
  note row = inner_loop_region [OF assms(1-3) y, of upd acc rd]
  show ?case
    using Cons.prems by (simp add: row Cons.IH)
qed

lemma pass_region:
  assumes "0 < sint width" and "0 < sint height" and "0 < sint rowStride"
    and "(sint height - 1) * sint rowStride + sint width \<le> int (length buf)"
  shows "for_loop 0 height (\<lambda>y. for_loop 0 width (read_step upd (Some buf) (row_offset y rowStride))) (acc, rd)
    = Inr (foldl upd acc (region buf (dim width) (dim height) (dim rowStride)),
           rd @ region_offsets (dim width) (dim height) (dim rowStride))"
proof -
  have "for_loop 0 height (\<lambda>y. for_loop 0 width (read_step upd (Some buf) (row_offset y rowStride))) (acc, rd)
    = foldE (\<lambda>y. for_loop 0 width (read_step upd (Some buf) (row_offset y rowStride)))
        (map word_of_nat [0..<dim height]) (acc, rd)"
    using assms(2) by (intro for_loop_from_zero) simp
  also have "\<dots> = Inr (foldl upd acc (concat (map (\<lambda>y. map (\<lambda>x. buf ! (y * dim rowStride + x)) [0..<dim width]) [0..<dim height])),
           rd @ concat (map (\<lambda>y. map (\<lambda>x. int (y * dim rowStride + x)) [0..<dim width]) [0..<dim height]))"
    using assms(4,3,1) by (rule outer_fold_region) simp
  finally show ?thesis
    by (simp only: region_def region_offsets_def)
qed

lemma sum_step_read: "sum_step data = read_step add_sample data"
  by (simp add: sum_step_def read_step_def add_sample_def fun_eq_iff split: sum.split)

lemma var_step_read: "var_step data mean = read_step (add_deviation mean) data"
  by (simp add: var_step_def read_step_def add_deviation_def fun_eq_iff Let_def split: sum.split)

lemma sample_count_dims:
  assumes "0 < sint width" and "0 < sint height"
  shows "sint (sample_count width height) = int (dim width) * int (dim height)"
  using assms by (simp add: sample_count_def sint_product_exact dim_def)

lemma process_gray_valid:
  assumes "valid_input (Some buf) width height rowStride"
  shows "process_gray (Some buf) width height rowStride
    = Inr (\<lparr>a = float_of_double (spec_mean buf (dim width) (dim height) (dim rowStride)),
             b = float_of_double (spec_stddev buf (dim width) (dim height) (dim rowStride))\<rparr>,
           region_offsets (dim width) (dim height) (dim rowStride)
             @ region_offsets (dim width) (dim height) (dim rowStride))"
proof -
  from assms have v: "0 < sint width" "0 < sint height" "0 < sint rowStride"
    "(sint height - 1) * sint rowStride + sint width \<le> int (length buf)"
    by (simp_all add: valid_input_def)
  have guard: "\<not> (Some buf = None \<or> width \<le>s 0 \<or> height \<le>s 0 \<or> rowStride \<le>s 0)"
    using v(1-3) by (simp add: word_sle_eq)
  have p1: "sum_pass (Some buf) width height rowStride (Finite 0, [])
    = Inr (foldl add_sample (Finite 0) (region buf (dim width) (dim height) (dim rowStride)),
           region_offsets (dim width) (dim height) (dim rowStride))"
    unfolding sum_pass_def sum_step_read using pass_region [OF v, of add_sample "Finite 0" "[]"] by simp
  have p2: "var_pass (Some buf) m width height rowStride (Finite 0, rd)
    = Inr (foldl (add_deviation m) (Finite 0) (region buf (dim width) (dim height) (dim rowStride)),
           rd @ region_offsets (dim width) (dim height) (dim rowStride))" for m rd
    unfolding var_pass_def var_step_read by (rule pass_region [OF v])
  show ?thesis
    unfolding process_gray_def Let_def if_not_P [OF guard]
    by (simp add: p1 p2 sample_count_dims [OF v(1,2)] spec_mean_def spec_stddev_def)
qed

section \<open>Degenerate arguments\<close>

text \<open>
  C3. With a null buffer or a width, height or row stride that is not positive,
  \<open>process_gray\<close> returns the result \<open>{0.0, 0.0}\<close>; it is a normal return, not a fault.
\<close>

theorem process_gray_degenerate:
  assumes "data = None \<or> width \<le>s 0 \<or> height \<le>s 0 \<or> rowStride \<le>s 0"
  shows "\<exists>reads. process_gray data width height rowStride
    = Inr (\<lparr>a = Finite 0, b = Finite 0\<rparr>, reads)"
  using assms by (simp add: process_gray_def)

theorem process_gray_degenerate_witness:
  "(Some [7] = (None :: buffer option) \<or> (0 :: 32 word) \<le>s 0 \<or> (- 1 :: 32 word) \<le>s 0 \<or> (3 :: 32 word) \<le>s 0) \<and>
   (\<exists>reads. process_gray (Some [7]) 0 (- 1) 3 = Inr (\<lparr>a = Finite 0, b = Finite 0\<rparr>, reads))"
  using process_gray_degenerate [of "Some [7]" 0 "- 1" 3] by simp

section \<open>Valid inputs\<close>

lemma region_cong:
  assumes "\<forall>y<h. \<forall>x<w. buf1 ! (y * rs + x) = buf2 ! (y * rs + x)"
  shows "region buf1 w h rs = region buf2 w h rs"
  unfolding region_def using assms by (intro arg_cong [where f = concat] map_cong refl) simp

lemma padded_row_example:
  "process_gray (Some [10, 20, 99, 99]) 2 1 4 = Inr (\<lparr>a = Finite 15, b = Finite 5\<rparr>, [0, 1, 0, 1])"
proof -
  have v: "valid_input (Some [10, 20, 99, 99]) 2 1 4"
    by (simp add: valid_input_def)
  have m: "spec_mean [10, 20, 99, 99] (dim 2) (dim 1) (dim 4) = Finite 15"
    by (simp add: fp_eval round64_scaled [where k = 0])
  have "rnd_sqrt 53 (- 1074) (5 * 5) = rnd 53 (- 1074) 5"
    by (rule rnd_sqrt_square) simp
  then have "rnd_sqrt 53 (- 1074) 25 = 5"
    by (simp add: rnd_scaled [where k = 0])
  then have s: "spec_stddev [10, 20, 99, 99] (dim 2) (dim 1) (dim 4) = Finite 5"
    unfolding spec_stddev_def m by (simp add: fp_eval round64_scaled [where k = 0])
  have o: "region_offsets (dim 2) (dim 1) (dim 4) = [0, 1]"
    by (simp add: region_offsets_def dim_def upt_rec)
  show ?thesis
    unfolding process_gray_valid [OF v] m s o by (simp add: round32_scaled [where k = 0])
qed

text \<open>
  C4. Padding bytes are never read: two valid inputs of the same geometry whose buffers
  agree on the first \<open>width\<close> bytes of each of the \<open>height\<close> rows give the same result
  (and the same reads), the offsets read by a call on a valid input are exactly the
  offsets \<open>y * rowStride + x\<close> of the region, and for \<open>width = 2\<close>, \<open>height = 1\<close>,
  \<open>rowStride = 4\<close> and the buffer \<open>[10, 20, 99, 99]\<close> the result is mean \<open>15\<close> and
  standard deviation \<open>5\<close>.
\<close>

theorem padding_never_read:
  "(valid_input (Some buf1) width height rowStride \<and> valid_input (Some buf2) width height rowStride \<and>
     (\<forall>y<dim height. \<forall>x<dim width.
        buf1 ! (y * dim rowStride + x) = buf2 ! (y * dim rowStride + x))
    \<longrightarrow> process_gray (Some buf1) width height rowStride = process_gray (Some buf2) width height rowStride) \<and>
   (valid_input (Some buf1) width height rowStride
    \<longrightarrow> (\<exists>r reads. process_gray (Some buf1) width height rowStride = Inr (r, reads) \<and>
          set reads = {int (y * dim rowStride + x) | y x. y < dim height \<and> x < dim width})) \<and>
   process_gray (Some [10, 20, 99, 99]) 2 1 4 = Inr (\<lparr>a = Finite 15, b = Finite 5\<rparr>, [0, 1, 0, 1])"
proof (intro conjI impI)
  assume "valid_input (Some buf1) width height rowStride \<and> valid_input (Some buf2) width height rowStride \<and>
     (\<forall>y<dim height. \<forall>x<dim width.
        buf1 ! (y * dim rowStride + x) = buf2 ! (y * dim rowStride + x))"
  then have v1: "valid_input (Some buf1) width height rowStride"
    and v2: "valid_input (Some buf2) width height rowStride"
    and "region buf1 (dim width) (dim height) (dim rowStride)
       = region buf2 (dim width) (dim height) (dim rowStride)"
    by (simp_all add: region_cong)
  then show "process_gray (Some buf1) width height rowStride = process_gray (Some buf2) width height rowStride"
    by (simp add: process_gray_valid spec_mean_def spec_stddev_def)
next
  assume v: "valid_input (Some buf1) width height rowStride"
  have "set (region_offsets (dim width) (dim height) (dim rowStride))
      = {int (y * dim rowStride + x) | y x. y < dim height \<and> x < dim width}"
    by (auto simp add: region_offsets_def; blast)
  then show "\<exists>r reads. process_gray (Some buf1) width height rowStride = Inr (r, reads) \<and>
      set reads = {int (y * dim rowStride + x) | y x. y < dim height \<and> x < dim width}"
    by (simp add: process_gray_valid [OF v])
next
  show "process_gray (Some [10, 20, 99, 99]) 2 1 4 = Inr (\<lparr>a = Finite 15, b = Finite 5\<rparr>, [0, 1, 0, 1])"
    by (rule padded_row_example)
qed

theorem padding_never_read_witness:
  "valid_input (Some [10, 20, 99, 99]) 2 1 4 \<and> valid_input (Some [10, 20, 1, 2, 3]) 2 1 4 \<and>
   [10, 20, 99, 99 :: 8 word] ! 0 = [10, 20, 1, 2, 3] ! 0 \<and>
   [10, 20, 99, 99 :: 8 word] ! 1 = [10, 20, 1, 2, 3] ! 1 \<and>
   process_gray (Some [10, 20, 99, 99]) 2 1 4 = process_gray (Some [10, 20, 1, 2, 3]) 2 1 4 \<and>
   (\<exists>r reads. process_gray (Some [10, 20, 99, 99]) 2 1 4 = Inr (r, reads) \<and> set reads = {0, 1})"
proof -
  have v1: "valid_input (Some [10, 20, 99, 99]) 2 1 4"
    and v2: "valid_input (Some [10, 20, 1, 2, 3]) 2 1 4"
    by (simp_all add: valid_input_def)
  have ag: "\<forall>y<dim (1 :: 32 word). \<forall>x<dim (2 :: 32 word).
      [10, 20, 99, 99 :: 8 word] ! (y * dim (4 :: 32 word) + x) = [10, 20, 1, 2, 3] ! (y * dim (4 :: 32 word) + x)"
    by (simp add: dim_def less_Suc_eq numeral_2_eq_2)
  have st: "{int (y * dim (4 :: 32 word) + x) | y x. y < dim (1 :: 32 word) \<and> x < dim (2 :: 32 word)} = {0, 1}"
    by (auto simp add: dim_def)
  note inst = padding_never_read [of "[10, 20, 99, 99]" 2 1 4 "[10, 20, 1, 2, 3]"]
  have eq: "process_gray (Some [10, 20, 99, 99]) 2 1 4 = process_gray (Some [10, 20, 1, 2, 3]) 2 1 4"
    using inst v1 v2 ag by blast
  have rd: "\<exists>r reads. process_gray (Some [10, 20, 99, 99]) 2 1 4 = Inr (r, reads) \<and> set reads = {0, 1}"
    using inst v1 unfolding st by blast
  have "[10, 20, 99, 99 :: 8 word] ! 0 = [10, 20, 1, 2, 3] ! 0"
    and "[10, 20, 99, 99 :: 8 word] ! 1 = [10, 20, 1, 2, 3] ! 1"
    by simp_all
  then show ?thesis
    using v1 v2 eq rd by blast
qed

lemma region_offsets_2_2_2: "region_offsets (dim 2) (dim 2) (dim 2) = [0, 1, 2, 3]"
  by (simp add: region_offsets_def dim_def upt_rec)

lemma checkerboard_mean: "spec_mean [0, 255, 0, 255] (dim 2) (dim 2) (dim 2) = Finite (255 / 2)"
  by (simp add: fp_eval round64_scaled [where k = 2])

lemma checkerboard_stddev: "spec_stddev [0, 255, 0, 255] (dim 2) (dim 2) (dim 2) = Finite (255 / 2)"
proof -
  have "rnd_sqrt 53 (- 1074) (255 / 2 * (255 / 2)) = rnd 53 (- 1074) (255 / 2)"
    by (rule rnd_sqrt_square) simp
  then have "rnd_sqrt 53 (- 1074) (65025 / 4) = 255 / 2"
    by (simp add: rnd_scaled [where k = 2])
  then show ?thesis
    unfolding spec_stddev_def checkerboard_mean
    by (simp add: fp_eval round64_scaled [where k = 2])
qed

text \<open>
  C7. For \<open>width = 2\<close>, \<open>height = 2\<close>, \<open>rowStride = 2\<close> and the buffer
  \<open>[0, 255, 0, 255]\<close>, \<open>process_gray\<close> returns mean \<open>127.5\<close> and standard deviation
  \<open>127.5\<close>.
\<close>

theorem process_gray_checkerboard:
  "process_gray (Some [0, 255, 0, 255]) 2 2 2
     = Inr (\<lparr>a = Finite (255 / 2), b = Finite (255 / 2)\<rparr>, [0, 1, 2, 3, 0, 1, 2, 3])"
proof -
  have v: "valid_input (Some [0, 255, 0, 255]) 2 2 2"
    by (simp add: valid_input_def)
  show ?thesis
    unfolding process_gray_valid [OF v] checkerboard_mean checkerboard_stddev region_offsets_2_2_2
    by (simp add: round32_scaled [where k = 2])
qed

text \<open>
  C9. The buffer is dereferenced only behind the guard of line 6: a call that faults on
  a read, or that returns after at least one read, was made with a non-null buffer and
  a positive width, height and row stride. With a degenerate argument no read happens.
\<close>

theorem reads_only_behind_guard:
  assumes "process_gray data width height rowStride = Inl f \<or>
    (\<exists>r reads. process_gray data width height rowStride = Inr (r, reads) \<and> reads \<noteq> [])"
  shows "data \<noteq> None \<and> 0 <s width \<and> 0 <s height \<and> 0 <s rowStride"
proof (rule ccontr)
  assume "\<not> (data \<noteq> None \<and> 0 <s width \<and> 0 <s height \<and> 0 <s rowStride)"
  then have "data = None \<or> width \<le>s 0 \<or> height \<le>s 0 \<or> rowStride \<le>s 0"
    by (auto simp add: word_sle_eq word_sless_alt)
  then have "process_gray data width height rowStride = Inr (\<lparr>a = Finite 0, b = Finite 0\<rparr>, [])"
    by (simp add: process_gray_def)
  with assms show False
    by simp
qed

theorem reads_only_behind_guard_witness:
  "(process_gray (Some [10, 20, 99, 99]) 2 1 4 = Inl OutOfBounds \<or>
    (\<exists>r reads. process_gray (Some [10, 20, 99, 99]) 2 1 4 = Inr (r, reads) \<and> reads \<noteq> [])) \<and>
   Some [10, 20, 99, 99 :: 8 word] \<noteq> None \<and> (0 :: 32 word) <s 2 \<and> (0 :: 32 word) <s 1 \<and> (0 :: 32 word) <s 4"
proof -
  have "\<exists>r reads. process_gray (Some [10, 20, 99, 99]) 2 1 4 = Inr (r, reads) \<and> reads \<noteq> []"
    by (simp add: padded_row_example)
  then have h: "process_gray (Some [10, 20, 99, 99]) 2 1 4 = Inl OutOfBounds \<or>
    (\<exists>r reads. process_gray (Some [10, 20, 99, 99]) 2 1 4 = Inr (r, reads) \<and> reads \<noteq> [])"
    by simp
  show ?thesis
    using h reads_only_behind_guard [OF h] by simp
qed

section \<open>Sign and range of the results\<close>

text \<open>
  No intermediate value overflows: a sum of bytes stays at or below \<open>2 ^ 61\<close> (from
  there on adding at most \<open>255\<close> rounds back), the sample count is a finite \<open>double\<close>
  that is at least one, a deviation is at most \<open>2 ^ 61\<close> in magnitude, and a sum of
  squared deviations stays at or below \<open>2 ^ 176\<close>.
\<close>

lemma double_of_count:
  assumes "1 \<le> n" and "n \<le> 2 ^ 62"
  shows "\<exists>c. double_of_int n = Finite c \<and> 1 \<le> c"
proof -
  have "\<bar>real_of_int n\<bar> \<le> 2 ^ 62"
    using assms by (simp add: of_int_le_numeral_power_cancel_iff)
  then have "\<bar>real_of_int n\<bar> \<le> 2 powi 62"
    by simp
  then have "round64 (of_int n) = Finite (rnd 53 (- 1074) (of_int n))"
    by (rule round64_finite) simp_all
  moreover have "rnd 53 (- 1074) 1 \<le> rnd 53 (- 1074) (of_int n)"
    using assms(1) by (intro rnd_mono) simp_all
  moreover have "rnd 53 (- 1074) 1 = 1"
    using rnd_two_powi [of 53 "- 1074" 0] by simp
  ultimately show ?thesis
    by (simp add: double_of_int_def)
qed

lemma count_bounds:
  assumes "0 < sint width" and "0 < sint height"
  shows "1 \<le> int (dim width) * int (dim height)" and "int (dim width) * int (dim height) \<le> 2 ^ 62"
proof -
  have w: "1 \<le> int (dim width)" "int (dim width) \<le> 2 ^ 31"
    using assms(1) sint_lt [of width] by (simp_all add: dim_def)
  have h: "1 \<le> int (dim height)" "int (dim height) \<le> 2 ^ 31"
    using assms(2) sint_lt [of height] by (simp_all add: dim_def)
  have "1 * 1 \<le> int (dim width) * int (dim height)"
    using w(1) h(1) by (intro mult_mono) simp_all
  then show "1 \<le> int (dim width) * int (dim height)"
    by simp
  have "int (dim width) * int (dim height) \<le> 2 ^ 31 * 2 ^ 31"
    using w h by (intro mult_mono) simp_all
  then show "int (dim width) * int (dim height) \<le> 2 ^ 62"
    by simp
qed

lemma rnd64_stall_sum: "rnd 53 (- 1074) (2 ^ 61 + 255) = 2 ^ 61"
proof -
  have "rnd 53 (- 1074) (2 ^ 61 + 255) = of_int (2 ^ 52) * 2 powi (61 - (int 53 - 1))"
    by (rule rnd_by_bounds) simp_all
  then show ?thesis
    by simp
qed

lemma rnd64_stall_var: "rnd 53 (- 1074) (2 ^ 176 + 2 ^ 122) = 2 ^ 176"
proof -
  have "rnd 53 (- 1074) (2 ^ 176 + 2 ^ 122) = of_int (2 ^ 52) * 2 powi (176 - (int 53 - 1))"
    by (rule rnd_by_bounds) simp_all
  then show ?thesis
    by simp
qed

lemma round64_bounded:
  assumes "0 \<le> x" and "x \<le> B" and "rnd 53 (- 1074) B = B'" and "B \<le> 2 powi k" and "- 1074 \<le> k" and "k < 1024"
  shows "\<exists>t. round64 x = Finite t \<and> 0 \<le> t \<and> t \<le> B'"
proof -
  have "\<bar>x\<bar> \<le> 2 powi k"
    using assms(1,2,4) by simp
  then have "round64 x = Finite (rnd 53 (- 1074) x)"
    using assms(5,6) by (rule round64_finite)
  moreover have "0 \<le> rnd 53 (- 1074) x"
    using assms(1) by (rule rnd_nonneg)
  moreover have "rnd 53 (- 1074) x \<le> rnd 53 (- 1074) B"
    using assms(2) by (intro rnd_mono) simp_all
  ultimately show ?thesis
    using assms(3) by simp
qed

lemma round64_le_two_powi:
  assumes "0 \<le> x" and "x \<le> 2 powi k" and "- 1074 \<le> k" and "k < 1024"
  shows "\<exists>t. round64 x = Finite t \<and> 0 \<le> t \<and> t \<le> 2 powi k"
proof -
  have "rnd 53 (- 1074) (2 powi k) = 2 powi k"
    using assms(3) by (intro rnd_two_powi) simp_all
  then show ?thesis
    using assms round64_bounded [of x "2 powi k" "2 powi k" k] by simp
qed

lemma real_byte_bounds: "0 \<le> real_of_int (uint (v :: 8 word))" "real_of_int (uint (v :: 8 word)) \<le> 255"
  using uint_byte_bounds [of v] by (simp_all only: of_int_0_le_iff of_int_le_numeral_iff)

lemma add_sample_bounded:
  assumes "0 \<le> s" and "s \<le> 2 ^ 61"
  shows "\<exists>t. add_sample (Finite s) v = Finite t \<and> 0 \<le> t \<and> t \<le> 2 ^ 61"
proof -
  let ?u = "real_of_int (uint v)"
  have u: "0 \<le> ?u" "?u \<le> 255"
    by (rule real_byte_bounds)+
  have "\<exists>t. round64 (s + ?u) = Finite t \<and> 0 \<le> t \<and> t \<le> 2 ^ 61"
  proof (rule round64_bounded)
    show "0 \<le> s + ?u" and "s + ?u \<le> 2 ^ 61 + 255"
      using assms u by simp_all
    show "rnd 53 (- 1074) (2 ^ 61 + 255) = 2 ^ 61"
      by (rule rnd64_stall_sum)
    show "(2::real) ^ 61 + 255 \<le> 2 powi 62" and "- 1074 \<le> (62::int)" and "(62::int) < 1024"
      by simp_all
  qed
  then show ?thesis
    by (simp add: add_sample_def double_of_byte)
qed

lemma foldl_add_sample_bounded:
  assumes "0 \<le> s" and "s \<le> 2 ^ 61"
  shows "\<exists>t. foldl add_sample (Finite s) vs = Finite t \<and> 0 \<le> t \<and> t \<le> 2 ^ 61"
  using assms
proof (induction vs arbitrary: s)
  case Nil
  then show ?case by simp
next
  case (Cons v vs)
  obtain t where "add_sample (Finite s) v = Finite t" "0 \<le> t" "t \<le> 2 ^ 61"
    using add_sample_bounded [OF Cons.prems] by blast
  then show ?case
    using Cons.IH [of t] by simp
qed

lemma spec_mean_bounded:
  assumes "1 \<le> int w * int h" and "int w * int h \<le> 2 ^ 62"
  shows "\<exists>m. spec_mean buf w h rs = Finite m \<and> 0 \<le> m \<and> m \<le> 2 ^ 61"
proof -
  obtain c where c: "double_of_int (int w * int h) = Finite c" "1 \<le> c"
    using double_of_count [OF assms] by blast
  obtain s where s: "foldl add_sample (Finite 0) (region buf w h rs) = Finite s" "0 \<le> s" "s \<le> 2 ^ 61"
    using foldl_add_sample_bounded [of 0 "region buf w h rs"] by auto
  have q: "0 \<le> s / c" "s / c \<le> 2 powi 61"
  proof -
    show "0 \<le> s / c"
      using s(2) c(2) by simp
    have "s / c \<le> s / 1"
      using s(2) c(2) by (intro divide_left_mono) simp_all
    then show "s / c \<le> 2 powi 61"
      using s(3) by simp
  qed
  have "\<exists>m. round64 (s / c) = Finite m \<and> 0 \<le> m \<and> m \<le> 2 powi 61"
    using q by (rule round64_le_two_powi) simp_all
  then show ?thesis
    using c(2) by (simp add: spec_mean_def s(1) c(1))
qed

lemma add_deviation_bounded:
  assumes "0 \<le> m" and "m \<le> 2 ^ 61" and "0 \<le> s" and "s \<le> 2 ^ 176"
  shows "\<exists>t. add_deviation (Finite m) (Finite s) v = Finite t \<and> 0 \<le> t \<and> t \<le> 2 ^ 176"
proof -
  let ?u = "real_of_int (uint v)"
  have u: "0 \<le> ?u" "?u \<le> 255"
    by (rule real_byte_bounds)+
  have ab: "\<bar>?u + - m\<bar> \<le> 2 powi 61"
    using u assms(1,2) by simp
  have "round64 (?u + - m) = Finite (rnd 53 (- 1074) (?u + - m))"
    using ab by (rule round64_finite) simp_all
  moreover have "\<bar>rnd 53 (- 1074) (?u + - m)\<bar> \<le> 2 powi 61"
    by (rule rnd_abs_le [OF _ _ ab]) simp_all
  ultimately obtain d where d: "dsub (Finite ?u) (Finite m) = Finite d" "\<bar>d\<bar> \<le> 2 ^ 61"
    by (simp add: dsub_def)
  have "d * d = \<bar>d\<bar> * \<bar>d\<bar>"
    by simp
  also have "\<dots> \<le> 2 ^ 61 * 2 ^ 61"
    using d(2) by (intro mult_mono) simp_all
  finally have dd: "0 \<le> d * d" "d * d \<le> 2 powi 122"
    by simp_all
  obtain e where e: "round64 (d * d) = Finite e" "0 \<le> e" "e \<le> 2 powi 122"
    using round64_le_two_powi [OF dd] by auto
  have "\<exists>t. round64 (s + e) = Finite t \<and> 0 \<le> t \<and> t \<le> 2 ^ 176"
  proof (rule round64_bounded)
    show "0 \<le> s + e" and "s + e \<le> 2 ^ 176 + 2 ^ 122"
      using assms(3,4) e(2,3) by simp_all
    show "rnd 53 (- 1074) (2 ^ 176 + 2 ^ 122) = 2 ^ 176"
      by (rule rnd64_stall_var)
    show "(2::real) ^ 176 + 2 ^ 122 \<le> 2 powi 177" and "- 1074 \<le> (177::int)" and "(177::int) < 1024"
      by simp_all
  qed
  then show ?thesis
    unfolding add_deviation_def double_of_byte d(1) by (simp add: e(1))
qed

lemma foldl_add_deviation_bounded:
  assumes "0 \<le> m" and "m \<le> 2 ^ 61" and "0 \<le> s" and "s \<le> 2 ^ 176"
  shows "\<exists>t. foldl (add_deviation (Finite m)) (Finite s) vs = Finite t \<and> 0 \<le> t \<and> t \<le> 2 ^ 176"
  using assms(3,4)
proof (induction vs arbitrary: s)
  case Nil
  then show ?case by simp
next
  case (Cons v vs)
  obtain t where "add_deviation (Finite m) (Finite s) v = Finite t" "0 \<le> t" "t \<le> 2 ^ 176"
    using add_deviation_bounded [OF assms(1,2) Cons.prems] by blast
  then show ?case
    using Cons.IH [of t] by simp
qed

lemma spec_stddev_bounded:
  assumes "1 \<le> int w * int h" and "int w * int h \<le> 2 ^ 62"
  shows "\<exists>s. spec_stddev buf w h rs = Finite s \<and> 0 \<le> s \<and> s \<le> 2 ^ 88"
proof -
  obtain c where c: "double_of_int (int w * int h) = Finite c" "1 \<le> c"
    using double_of_count [OF assms] by blast
  obtain m where m: "spec_mean buf w h rs = Finite m" "0 \<le> m" "m \<le> 2 ^ 61"
    using spec_mean_bounded [OF assms] by blast
  obtain t where t: "foldl (add_deviation (Finite m)) (Finite 0) (region buf w h rs) = Finite t"
    "0 \<le> t" "t \<le> 2 ^ 176"
    using foldl_add_deviation_bounded [OF m(2,3), of 0 "region buf w h rs"] by auto
  have q: "0 \<le> t / c" "t / c \<le> 2 powi 176"
  proof -
    show "0 \<le> t / c"
      using t(2) c(2) by simp
    have "t / c \<le> t / 1"
      using t(2) c(2) by (intro divide_left_mono) simp_all
    then show "t / c \<le> 2 powi 176"
      using t(3) by simp
  qed
  obtain x where x: "round64 (t / c) = Finite x" "0 \<le> x" "x \<le> 2 powi 176"
    using round64_le_two_powi [OF q] by auto
  have "sqrt x \<le> sqrt ((2 ^ 88)\<^sup>2)"
    using x(3) by (intro real_sqrt_le_mono) simp
  then have "sqrt x \<le> 2 powi 88"
    by simp
  then have "rnd 53 (- 1074) (sqrt x) \<le> rnd 53 (- 1074) (2 powi 88)"
    by (intro rnd_mono) simp_all
  also have "\<dots> = 2 powi 88"
    by (rule rnd_two_powi) simp_all
  finally have "rnd_sqrt 53 (- 1074) x \<le> 2 ^ 88"
    using x(2) by (simp add: rnd_sqrt_eq')
  then show ?thesis
    using c(2) x(2) unfolding spec_stddev_def m(1) t(1) c(1)
    by (simp add: x(1) rnd_sqrt_nonneg)
qed

lemma round32_bounded:
  assumes "0 \<le> x" and "x \<le> 2 powi k" and "- 149 \<le> k" and "k < 128"
  shows "\<exists>t. round32 x = Finite t \<and> 0 \<le> t"
proof -
  have "\<bar>x\<bar> \<le> 2 powi k"
    using assms(1,2) by simp
  then have "round32 x = Finite (rnd 24 (- 149) x)"
    using assms(3,4) by (rule round32_finite)
  then show ?thesis
    using assms(1) by (simp add: rnd_nonneg)
qed

text \<open>
  C5. For a valid input the \<open>stddev\<close> field of the result is a finite number that is
  greater than or equal to \<open>0\<close> (and so is the \<open>mean\<close> field): the comparison
  \<open>stddev >= 0\<close> holds.
\<close>

theorem stddev_nonnegative:
  assumes "valid_input (Some buf) width height rowStride"
  shows "\<exists>r reads m s. process_gray (Some buf) width height rowStride = Inr (r, reads) \<and>
    a r = Finite m \<and> 0 \<le> m \<and> b r = Finite s \<and> 0 \<le> s \<and> fp_ge (b r) (Finite 0)"
proof -
  from assms have "0 < sint width" "0 < sint height"
    by (simp_all add: valid_input_def)
  then have n: "1 \<le> int (dim width) * int (dim height)" "int (dim width) * int (dim height) \<le> 2 ^ 62"
    by (rule count_bounds)+
  obtain m where m: "spec_mean buf (dim width) (dim height) (dim rowStride) = Finite m" "0 \<le> m" "m \<le> 2 ^ 61"
    using spec_mean_bounded [OF n] by blast
  obtain s where s: "spec_stddev buf (dim width) (dim height) (dim rowStride) = Finite s" "0 \<le> s" "s \<le> 2 ^ 88"
    using spec_stddev_bounded [OF n] by blast
  obtain m' where m': "round32 m = Finite m'" "0 \<le> m'"
    using round32_bounded [of m 61] m(2,3) by auto
  obtain s' where s': "round32 s = Finite s'" "0 \<le> s'"
    using round32_bounded [of s 88] s(2,3) by auto
  show ?thesis
    using process_gray_valid [OF assms] m' s' by (simp add: m(1) s(1))
qed

theorem stddev_nonnegative_witness:
  "valid_input (Some [3, 5, 9, 5, 3, 1]) 2 2 3 \<and>
   (\<exists>r reads s. process_gray (Some [3, 5, 9, 5, 3, 1]) 2 2 3 = Inr (r, reads) \<and>
      b r = Finite s \<and> 0 \<le> s \<and> fp_ge (b r) (Finite 0))"
proof -
  have v: "valid_input (Some [3, 5, 9, 5, 3, 1]) 2 2 3"
    by (simp add: valid_input_def)
  show ?thesis
    using v stddev_nonnegative [OF v] by blast
qed

subsection \<open>When the accumulation is exact\<close>

lemma length_region: "length (region buf w h rs) = w * h"
proof -
  have "length (concat (map (\<lambda>y. map (\<lambda>x. buf ! (y * rs + x)) [0..<w]) ys)) = w * length ys" for ys
    by (induction ys) simp_all
  from this [of "[0..<h]"] show ?thesis
    by (simp add: region_def)
qed

lemma sum_list_bytes: "0 \<le> sum_list (map uint (vs :: 8 word list))"
  "sum_list (map uint (vs :: 8 word list)) \<le> 255 * int (length vs)"
proof -
  show "0 \<le> sum_list (map uint vs)"
    by (rule sum_list_nonneg) auto
  show "sum_list (map uint vs) \<le> 255 * int (length vs)"
  proof (induction vs)
    case Nil
    show ?case by simp
  next
    case (Cons v vs)
    then show ?case
      using uint_byte_bounds(2) [of v] by simp
  qed
qed

lemma sample_sum_bounds: "0 \<le> sample_sum buf w h rs"
  "sample_sum buf w h rs \<le> 255 * (int w * int h)"
  using sum_list_bytes [of "region buf w h rs"] by (simp_all add: sample_sum_def length_region)

lemma spec_mean_sum_exact:
  assumes "sample_sum buf w h rs \<le> 2 ^ 53"
  shows "spec_mean buf w h rs = ddiv (Finite (of_int (sample_sum buf w h rs))) (double_of_int (int w * int h))"
proof -
  have "foldl add_sample (Finite (of_int 0)) (region buf w h rs)
      = Finite (of_int (0 + sum_list (map uint (region buf w h rs))))"
    using assms by (intro foldl_add_sample_exact) (simp_all add: sample_sum_def)
  then show ?thesis
    by (simp add: spec_mean_def sample_sum_def)
qed

lemma rnd_between:
  assumes "0 < p" and "emin \<le> 0" and "8 \<le> p" and "0 \<le> q" and "q \<le> 255"
  shows "0 \<le> rnd p emin q" and "rnd p emin q \<le> 255"
proof -
  show "0 \<le> rnd p emin q"
    using assms(4) by (rule rnd_nonneg)
  have "(2::int) ^ 8 \<le> 2 ^ p"
    using assms(3) by (intro power_increasing) simp_all
  then have "\<bar>255 :: int\<bar> < 2 ^ p"
    by simp
  with assms(2) have "rnd p emin (of_int 255 * 2 powi 0) = of_int 255 * 2 powi 0"
    by (rule rnd_exact)
  then have "rnd p emin 255 = 255"
    by simp
  moreover have "rnd p emin q \<le> rnd p emin 255"
    using assms(1,5) by (rule rnd_mono)
  ultimately show "rnd p emin q \<le> 255"
    by simp
qed

lemma round64_between:
  assumes "0 \<le> q" and "q \<le> 255"
  shows "\<exists>m. round64 q = Finite m \<and> 0 \<le> m \<and> m \<le> 255"
proof -
  have "\<bar>q\<bar> \<le> 2 powi 8"
    using assms by simp
  then have "round64 q = Finite (rnd 53 (- 1074) q)"
    by (rule round64_finite) simp_all
  then show ?thesis
    using rnd_between [of 53 "- 1074" q] assms by simp
qed

lemma round32_between:
  assumes "0 \<le> q" and "q \<le> 255"
  shows "\<exists>m. round32 q = Finite m \<and> 0 \<le> m \<and> m \<le> 255"
proof -
  have "\<bar>q\<bar> \<le> 2 powi 8"
    using assms by simp
  then have "round32 q = Finite (rnd 24 (- 149) q)"
    by (rule round32_finite) simp_all
  then show ?thesis
    using rnd_between [of 24 "- 149" q] assms by simp
qed

lemma double_of_count_large:
  assumes "2 ^ 53 \<le> n" and "n \<le> 2 ^ 62"
  shows "\<exists>c. double_of_int n = Finite c \<and> 2 ^ 53 \<le> c"
proof -
  have "\<bar>real_of_int n\<bar> \<le> 2 ^ 62"
    using assms by (simp add: of_int_le_numeral_power_cancel_iff)
  then have "\<bar>real_of_int n\<bar> \<le> 2 powi 62"
    by simp
  then have "round64 (of_int n) = Finite (rnd 53 (- 1074) (of_int n))"
    by (rule round64_finite) simp_all
  moreover have "(2::real) ^ 53 \<le> of_int n"
    using assms(1) by (simp add: numeral_power_le_of_int_cancel_iff)
  then have "rnd 53 (- 1074) (2 ^ 53) \<le> rnd 53 (- 1074) (of_int n)"
    by (intro rnd_mono) simp_all
  moreover have "rnd 53 (- 1074) (2 ^ 53) = 2 ^ 53"
    using rnd_two_powi [of 53 "- 1074" 53] by simp
  ultimately show ?thesis
    by (simp add: double_of_int_def)
qed

lemma exact_quotient_in_range:
  assumes "S \<le> 2 ^ 53" and "S \<le> 255 * n" and "1 \<le> n" and "n \<le> 2 ^ 62"
  shows "\<exists>c. double_of_int n = Finite c \<and> 1 \<le> c \<and> real_of_int S / c \<le> 255"
proof (cases "n \<le> 2 ^ 53")
  case True
  have c: "double_of_int n = Finite (of_int n)"
    unfolding double_of_int_def using True assms(3) by (intro round64_int) simp
  have "real_of_int S \<le> real_of_int (255 * n)"
    using assms(2) by (simp only: of_int_le_iff)
  moreover have "0 < real_of_int n"
    using assms(3) by simp
  ultimately have "real_of_int S / real_of_int n \<le> 255"
    by (simp add: field_simps)
  moreover have "1 \<le> real_of_int n"
    using assms(3) by simp
  ultimately show ?thesis
    using c by blast
next
  case False
  then obtain c where c: "double_of_int n = Finite c" "2 ^ 53 \<le> c"
    using double_of_count_large [of n] assms(4) by auto
  have "real_of_int S \<le> 2 ^ 53"
    using assms(1) by (simp add: of_int_le_numeral_power_cancel_iff)
  then have "real_of_int S \<le> c"
    using c(2) by linarith
  moreover have "0 < c"
    using c(2) by (rule less_le_trans [rotated]) simp
  ultimately have "real_of_int S / c \<le> 1"
    by (simp add: field_simps)
  then have "real_of_int S / c \<le> 255"
    by linarith
  moreover have "1 \<le> c"
    using c(2) by (rule order_trans [rotated]) simp
  ultimately show ?thesis
    using c(1) by blast
qed

text \<open>
  C10, amended. For a valid input whose exact sum of samples is at most \<open>2 ^ 53\<close> (as
  for every image of at most \<open>2 ^ 45\<close> samples), the \<open>mean\<close> field of the result is a
  finite number in the closed interval from \<open>0\<close> to \<open>255\<close>.
\<close>

theorem mean_in_byte_range:
  assumes "valid_input (Some buf) width height rowStride"
    and "sample_sum buf (dim width) (dim height) (dim rowStride) \<le> 2 ^ 53"
  shows "\<exists>r reads m. process_gray (Some buf) width height rowStride = Inr (r, reads) \<and>
    a r = Finite m \<and> 0 \<le> m \<and> m \<le> 255"
proof -
  let ?S = "sample_sum buf (dim width) (dim height) (dim rowStride)"
  from assms(1) have "0 < sint width" "0 < sint height"
    by (simp_all add: valid_input_def)
  then have n: "1 \<le> int (dim width) * int (dim height)" "int (dim width) * int (dim height) \<le> 2 ^ 62"
    by (rule count_bounds)+
  obtain c where c: "double_of_int (int (dim width) * int (dim height)) = Finite c" "1 \<le> c"
    "of_int ?S / c \<le> 255"
    using exact_quotient_in_range [OF assms(2) sample_sum_bounds(2) n] by blast
  have "0 \<le> real_of_int ?S / c"
    using sample_sum_bounds(1) [of buf "dim width" "dim height" "dim rowStride"] c(2) by simp
  then obtain m where m: "round64 (of_int ?S / c) = Finite m" "0 \<le> m" "m \<le> 255"
    using round64_between c(3) by blast
  obtain m' where m': "round32 m = Finite m'" "0 \<le> m'" "m' \<le> 255"
    using round32_between m(2,3) by blast
  have "spec_mean buf (dim width) (dim height) (dim rowStride) = Finite m"
    using c(2) by (simp add: spec_mean_sum_exact [OF assms(2)] c(1) m(1))
  then show ?thesis
    using process_gray_valid [OF assms(1)] m' by simp
qed

theorem mean_in_byte_range_witness:
  "valid_input (Some [3, 5, 9, 5, 3, 1]) 2 2 3 \<and>
   sample_sum [3, 5, 9, 5, 3, 1] (dim 2) (dim 2) (dim 3) \<le> 2 ^ 53 \<and>
   (\<exists>r reads m. process_gray (Some [3, 5, 9, 5, 3, 1]) 2 2 3 = Inr (r, reads) \<and>
      a r = Finite m \<and> 0 \<le> m \<and> m \<le> 255)"
proof -
  have v: "valid_input (Some [3, 5, 9, 5, 3, 1]) 2 2 3"
    by (simp add: valid_input_def)
  have s: "sample_sum [3, 5, 9, 5, 3, 1] (dim 2) (dim 2) (dim 3) \<le> 2 ^ 53"
    by (simp add: sample_sum_def region_def dim_def upt_rec)
  show ?thesis
    using v s mean_in_byte_range [OF v s] by blast
qed

lemma round64_zero [simp]: "round64 0 = Finite 0"
  using round64_int [of 0] by simp

lemma round32_zero [simp]: "round32 0 = Finite 0"
  using round32_int [of 0] by simp

lemma region_const:
  assumes "\<forall>y<h. \<forall>x<w. buf ! (y * rs + x) = c"
  shows "region buf w h rs = replicate (w * h) c"
proof (rule replicate_eqI)
  show "length (region buf w h rs) = w * h"
    by (rule length_region)
  fix v assume "v \<in> set (region buf w h rs)"
  then obtain y x where "y < h" "x < w" "v = buf ! (y * rs + x)"
    by (auto simp add: region_def)
  with assms show "v = c"
    by simp
qed

lemma foldl_add_deviation_const:
  "foldl (add_deviation (Finite (of_int (uint c)))) (Finite 0) (replicate n c) = Finite 0"
proof (induction n)
  case 0
  show ?case by simp
next
  case (Suc n)
  have "add_deviation (Finite (of_int (uint c))) (Finite 0) c = Finite 0"
    by (simp add: add_deviation_def double_of_byte dsub_def)
  then show ?case
    using Suc by simp
qed

text \<open>
  C6, amended. For a valid input whose samples in the region all equal \<open>c\<close>, with
  \<open>c * width * height\<close> at most \<open>2 ^ 53\<close>, \<open>process_gray\<close> returns a mean equal to \<open>c\<close> and
  a standard deviation equal to \<open>0\<close>.
\<close>

theorem constant_image:
  assumes "valid_input (Some buf) width height rowStride"
    and "\<forall>y<dim height. \<forall>x<dim width. buf ! (y * dim rowStride + x) = c"
    and "uint c * (int (dim width) * int (dim height)) \<le> 2 ^ 53"
  shows "\<exists>r reads. process_gray (Some buf) width height rowStride = Inr (r, reads) \<and>
    a r = Finite (of_int (uint c)) \<and> b r = Finite 0"
proof -
  define n where "n = int (dim width) * int (dim height)"
  let ?W = "dim width" and ?H = "dim height" and ?R = "dim rowStride"
  from assms(1) have "0 < sint width" "0 < sint height"
    by (simp_all add: valid_input_def)
  then have n: "1 \<le> n" "n \<le> 2 ^ 62"
    unfolding n_def by (rule count_bounds)+
  have reg: "region buf ?W ?H ?R = replicate (?W * ?H) c"
    using assms(2) by (rule region_const)
  have S: "sample_sum buf ?W ?H ?R = uint c * n"
    by (simp add: sample_sum_def reg sum_list_replicate n_def)
  have S53: "sample_sum buf ?W ?H ?R \<le> 2 ^ 53"
    using assms(3) by (simp add: S n_def)
  obtain d where d: "double_of_int n = Finite d" "1 \<le> d"
    using double_of_count [OF n] by blast
  have mean: "spec_mean buf ?W ?H ?R = Finite (of_int (uint c))"
  proof (cases "uint c = 0")
    case True
    then show ?thesis
      using d by (simp add: spec_mean_sum_exact [OF S53] S n_def [symmetric])
  next
    case False
    then have "1 \<le> uint c"
      using uint_byte_bounds(1) [of c] by linarith
    then have "1 * n \<le> uint c * n"
      using n(1) by (intro mult_right_mono) simp_all
    then have "n \<le> 2 ^ 53"
      using assms(3) by (simp add: n_def)
    then have dn: "double_of_int n = Finite (of_int n)"
      unfolding double_of_int_def using n(1) by (intro round64_int) simp
    have "real_of_int n \<noteq> 0"
      using n(1) by simp
    then have "real_of_int (uint c * n) / real_of_int n = of_int (uint c)"
      by simp
    moreover have "round64 (of_int (uint c)) = Finite (of_int (uint c))"
      using double_of_byte [of c] by (simp add: double_of_int_def)
    ultimately show ?thesis
      using \<open>real_of_int n \<noteq> 0\<close>
      by (simp add: spec_mean_sum_exact [OF S53] S n_def [symmetric] dn del: of_int_mult)
  qed
  have "d \<noteq> 0"
    using d(2) by simp
  then have dev: "spec_stddev buf ?W ?H ?R = Finite 0"
    unfolding spec_stddev_def mean reg foldl_add_deviation_const n_def [symmetric] d(1)
    by simp
  have "round32 (of_int (uint c)) = Finite (of_int (uint c))"
    using uint_byte_bounds [of c] by (intro round32_int) simp
  then show ?thesis
    using process_gray_valid [OF assms(1)] by (simp add: mean dev)
qed

theorem constant_image_witness:
  "valid_input (Some [7, 7, 7, 7]) 2 2 2 \<and> uint (7 :: 8 word) * (2 * 2) \<le> 2 ^ 53 \<and>
   (\<exists>r reads. process_gray (Some [7, 7, 7, 7]) 2 2 2 = Inr (r, reads) \<and>
      a r = Finite 7 \<and> b r = Finite 0)"
proof -
  have v: "valid_input (Some [7, 7, 7, 7]) 2 2 2"
    by (simp add: valid_input_def)
  have c: "\<forall>y<dim (2 :: 32 word). \<forall>x<dim (2 :: 32 word). [7, 7, 7, 7 :: 8 word] ! (y * dim (2 :: 32 word) + x) = 7"
    by (simp add: dim_def less_Suc_eq numeral_2_eq_2)
  have b: "uint (7 :: 8 word) * (int (dim (2 :: 32 word)) * int (dim (2 :: 32 word))) \<le> 2 ^ 53"
    by (simp add: dim_def)
  show ?thesis
    using v constant_image [OF v c b] by simp
qed

subsection \<open>Beyond \<open>2 ^ 53\<close>: the accumulator rounds\<close>

text \<open>
  A \<open>double\<close> has 53 significant bits. Adding \<open>255\<close> to a sum \<open>s\<close> with
  \<open>2 ^ 53 \<le> s + 255 < 2 ^ 54\<close> gives an odd integer, half way between two doubles, and
  the tie goes to the even significand: from a sum that is a multiple of \<open>4\<close> the result
  is \<open>s + 256\<close>. So over samples that all equal \<open>255\<close> the accumulated sum is exact up
  to \<open>35322350018592\<close> samples (sum \<open>2 ^ 53 - 32\<close>) and grows by \<open>256\<close> a sample after
  that.
\<close>

lemma round64_tie_up:
  assumes "acc mod 4 = 0" and "2 ^ 53 \<le> acc + 255" and "acc + 256 \<le> 2 ^ 54"
  shows "round64 (of_int acc + 255) = Finite (of_int acc + 256)"
proof -
  define x where "x = real_of_int acc + 255"
  obtain j where j: "acc = 4 * j"
    using assms(1) by (auto simp add: mod_eq_0_iff_dvd elim: dvdE)
  have lo: "2 ^ 53 \<le> x"
  proof -
    have "(2::real) ^ 53 \<le> real_of_int (acc + 255)"
      using assms(2) by (simp only: numeral_power_le_of_int_cancel_iff)
    then show ?thesis
      by (simp add: x_def)
  qed
  have hi: "x < 2 ^ 54"
  proof -
    have "real_of_int (acc + 256) \<le> 2 ^ 54"
      using assms(3) by (simp only: of_int_le_numeral_power_cancel_iff)
    then show ?thesis
      by (simp add: x_def)
  qed
  have ax: "\<bar>x\<bar> = x"
    using lo by simp
  have "rnd 53 (- 1074) x = of_int (2 * j + 128) * 2 powi (53 - (int 53 - 1))"
  proof (rule rnd_by_bounds)
    show "2 powi 53 \<le> \<bar>x\<bar>" and "\<bar>x\<bar> < 2 powi (53 + 1)"
      using lo hi by (simp_all add: ax)
    show "- 1074 \<le> 53 - (int 53 - 1)"
      by simp
    have "x / 2 powi (53 - (int 53 - 1)) - real_of_int (2 * j + 128) = - 1 / 2"
      by (simp add: x_def j field_simps)
    then show "\<bar>x / 2 powi (53 - (int 53 - 1)) - real_of_int (2 * j + 128)\<bar> < 1 / 2 \<or>
        (\<bar>x / 2 powi (53 - (int 53 - 1)) - real_of_int (2 * j + 128)\<bar> = 1 / 2 \<and> even (2 * j + 128))"
      by simp
  qed
  then have r: "rnd 53 (- 1074) x = of_int acc + 256"
    by (simp add: j)
  have "\<bar>x\<bar> \<le> 2 powi 54"
    using hi ax by simp
  then have "round64 x = Finite (rnd 53 (- 1074) x)"
    by (rule round64_finite) simp_all
  then show ?thesis
    by (simp only: r) (simp only: x_def)
qed

lemma foldl_add_255_tie:
  assumes "acc mod 4 = 0" and "2 ^ 53 \<le> acc + 255" and "acc + 256 * int n \<le> 2 ^ 54"
  shows "foldl add_sample (Finite (of_int acc)) (replicate n 255) = Finite (of_int (acc + 256 * int n))"
  using assms
proof (induction n arbitrary: acc)
  case 0
  show ?case by simp
next
  case (Suc n)
  have "acc + 256 \<le> 2 ^ 54"
    using Suc.prems(3) by simp
  then have "round64 (of_int acc + 255) = Finite (of_int acc + 256)"
    using Suc.prems(1,2) by (intro round64_tie_up)
  moreover have "double_of_int (uint (255 :: 8 word)) = Finite 255"
    using double_of_byte [of 255] by simp
  ultimately have step: "add_sample (Finite (of_int acc)) 255 = Finite (of_int (acc + 256))"
    unfolding add_sample_def by simp
  have "foldl add_sample (Finite (of_int (acc + 256))) (replicate n 255)
      = Finite (of_int (acc + 256 + 256 * int n))"
  proof (rule Suc.IH)
    show "(acc + 256) mod 4 = 0"
      using Suc.prems(1) by presburger
    show "2 ^ 53 \<le> acc + 256 + 255"
      using Suc.prems(2) by simp
    show "acc + 256 + 256 * int n \<le> 2 ^ 54"
      using Suc.prems(3) by simp
  qed
  then show ?case
    by (simp add: step algebra_simps)
qed

lemma sum_of_255s:
  assumes "9007199254740960 + 256 * int n \<le> 2 ^ 54"
  shows "foldl add_sample (Finite 0) (replicate (35322350018592 + n) 255)
    = Finite (of_int (9007199254740960 + 256 * int n))"
proof -
  have "foldl add_sample (Finite (of_int 0)) (replicate 35322350018592 255)
      = Finite (of_int (0 + sum_list (map uint (replicate 35322350018592 (255 :: 8 word)))))"
    by (rule foldl_add_sample_exact) (simp_all add: sum_list_replicate)
  then have first: "foldl add_sample (Finite 0) (replicate 35322350018592 255)
      = Finite (of_int 9007199254740960)"
    by (simp add: sum_list_replicate)
  have "foldl add_sample (Finite (of_int 9007199254740960)) (replicate n 255)
      = Finite (of_int (9007199254740960 + 256 * int n))"
    using assms by (intro foldl_add_255_tie) simp_all
  then show ?thesis
    by (simp only: replicate_add foldl_append first)
qed

lemma spec_mean_saturated:
  assumes "w * h = 70368744177664" and "region buf w h rs = replicate (w * h) 255"
  shows "spec_mean buf w h rs = Finite (561846129983231 / 2199023255552)"
proof -
  have "w * h = 35322350018592 + 35046394159072"
    using assms(1) by simp
  then have "region buf w h rs = replicate (35322350018592 + 35046394159072) 255"
    using assms(2) by (simp only:)
  moreover have "foldl add_sample (Finite 0) (replicate (35322350018592 + 35046394159072) 255)
      = Finite (of_int (9007199254740960 + 256 * int 35046394159072))"
    by (rule sum_of_255s) simp
  ultimately have s: "foldl add_sample (Finite 0) (region buf w h rs) = Finite 17979076159463392"
    by simp
  have "int w * int h = int (w * h)"
    by simp
  then have "int w * int h = 70368744177664"
    unfolding assms(1) by simp
  moreover have "double_of_int 70368744177664 = Finite 70368744177664"
    unfolding double_of_int_def using round64_int [of 70368744177664] by simp
  ultimately have n: "double_of_int (int w * int h) = Finite 70368744177664"
    by (simp only:)
  show ?thesis
    unfolding spec_mean_def s n by (simp add: round64_scaled [where k = 45])
qed

lemma float_of_saturated_mean:
  "round32 (561846129983231 / 2199023255552) = Finite (16744319 / 65536)"
proof -
  define x :: real where "x = 561846129983231 / 2199023255552"
  have "rnd 24 (- 149) x = of_int 16744319 * 2 powi (7 - (int 24 - 1))"
    by (rule rnd_by_bounds) (simp_all add: x_def)
  then have r: "rnd 24 (- 149) x = 16744319 / 65536"
    by (simp add: power_int_minus_divide)
  have "\<bar>x\<bar> \<le> 2 powi 8"
    by (simp add: x_def)
  then have "round32 x = Finite (rnd 24 (- 149) x)"
    by (rule round32_finite) simp_all
  then show ?thesis
    by (simp only: r) (simp only: x_def)
qed

lemma saturated_call:
  assumes "valid_input (Some buf) width height rowStride"
    and "dim width * dim height = 70368744177664"
    and "region buf (dim width) (dim height) (dim rowStride) = replicate (dim width * dim height) 255"
  shows "map_option a (returned (process_gray (Some buf) width height rowStride))
    = Some (Finite (16744319 / 65536))"
  unfolding process_gray_valid [OF assms(1)] spec_mean_saturated [OF assms(2,3)]
  by (simp add: returned_def float_of_saturated_mean)

lemma region_replicate_stride_one:
  assumes "h + w \<le> Suc n"
  shows "region (replicate n c) w h 1 = replicate (w * h) c"
proof (rule region_const, intro allI impI)
  fix y x assume "y < h" and "x < w"
  with assms have "y * 1 + x < n"
    by simp
  then show "replicate n c ! (y * 1 + x) = c"
    by (rule nth_replicate)
qed

lemma region_replicate_packed: "region (replicate (w * h) c) w h w = replicate (w * h) c"
proof (rule region_const, intro allI impI)
  fix y x assume "y < h" and "x < w"
  then have "Suc y \<le> h"
    by simp
  then have "w * Suc y \<le> w * h"
    by (rule mult_le_mono2)
  with \<open>x < w\<close> have "y * w + x < w * h"
    by (simp add: mult.commute)
  then show "replicate (w * h) c ! (y * w + x) = c"
    by (rule nth_replicate)
qed

text \<open>
  C6 as stated fails: over \<open>2 ^ 46\<close> samples that all equal \<open>255\<close>, as an image of
  \<open>8388608 x 8388608\<close> with row stride \<open>1\<close> over a buffer of \<open>16777215\<close> bytes, or with
  row stride \<open>8388608\<close> over a buffer of \<open>2 ^ 46\<close> bytes, the returned mean is
  \<open>16744319 / 65536\<close> (about \<open>255.498\<close>), not \<open>255\<close>.
\<close>

theorem constant_image_counterexample:
  "valid_input (Some (replicate 16777215 255)) 8388608 8388608 1 \<and>
   region (replicate 16777215 255) (dim 8388608) (dim 8388608) (dim 1) = replicate 70368744177664 255 \<and>
   map_option a (returned (process_gray (Some (replicate 16777215 255)) 8388608 8388608 1))
     = Some (Finite (16744319 / 65536)) \<and>
   valid_input (Some (replicate 70368744177664 255)) 8388608 8388608 8388608 \<and>
   region (replicate 70368744177664 255) (dim 8388608) (dim 8388608) (dim 8388608)
     = replicate 70368744177664 255 \<and>
   map_option a (returned (process_gray (Some (replicate 70368744177664 255)) 8388608 8388608 8388608))
     = Some (Finite (16744319 / 65536)) \<and>
   Finite (16744319 / 65536) \<noteq> Finite (of_int (uint (255 :: 8 word)))"
proof -
  have d: "dim (8388608 :: 32 word) = 8388608" "dim (1 :: 32 word) = 1"
    by (simp_all add: dim_def)
  have n: "dim (8388608 :: 32 word) * dim (8388608 :: 32 word) = 70368744177664"
    by (simp add: d)
  have v1: "valid_input (Some (replicate 16777215 255)) 8388608 8388608 1"
    by (simp add: valid_input_def)
  have "region (replicate 16777215 255) 8388608 8388608 1 = replicate (8388608 * 8388608) (255 :: 8 word)"
    by (rule region_replicate_stride_one) simp
  then have r1: "region (replicate 16777215 255) (dim 8388608) (dim 8388608) (dim 1)
      = replicate (dim (8388608 :: 32 word) * dim (8388608 :: 32 word)) 255"
    by (simp only: d)
  have v2: "valid_input (Some (replicate 70368744177664 255)) 8388608 8388608 8388608"
    by (simp add: valid_input_def)
  have "region (replicate (8388608 * 8388608) 255) 8388608 8388608 8388608
      = replicate (8388608 * 8388608) (255 :: 8 word)"
    by (rule region_replicate_packed)
  then have r2: "region (replicate 70368744177664 255) (dim 8388608) (dim 8388608) (dim 8388608)
      = replicate (dim (8388608 :: 32 word) * dim (8388608 :: 32 word)) 255"
    by (simp add: d)
  show ?thesis
    using v1 r1 saturated_call [OF v1 n r1] v2 r2 saturated_call [OF v2 n r2] by (simp add: n)
qed

text \<open>
  C10 as stated fails: over \<open>2 ^ 46\<close> samples that all equal \<open>255\<close>, as an image of
  \<open>16777216 x 4194304\<close> with row stride \<open>1\<close> over a buffer of \<open>20971519\<close> bytes, or with
  row stride \<open>16777216\<close> over a buffer of \<open>2 ^ 46\<close> bytes, the returned mean is
  \<open>16744319 / 65536\<close>, which is greater than \<open>255\<close>.
\<close>

theorem mean_in_byte_range_counterexample:
  "valid_input (Some (replicate 20971519 255)) 16777216 4194304 1 \<and>
   map_option a (returned (process_gray (Some (replicate 20971519 255)) 16777216 4194304 1))
     = Some (Finite (16744319 / 65536)) \<and>
   valid_input (Some (replicate 70368744177664 255)) 16777216 4194304 16777216 \<and>
   map_option a (returned (process_gray (Some (replicate 70368744177664 255)) 16777216 4194304 16777216))
     = Some (Finite (16744319 / 65536)) \<and>
   (255 :: real) < 16744319 / 65536"
proof -
  have d: "dim (16777216 :: 32 word) = 16777216" "dim (4194304 :: 32 word) = 4194304" "dim (1 :: 32 word) = 1"
    by (simp_all add: dim_def)
  have n: "dim (16777216 :: 32 word) * dim (4194304 :: 32 word) = 70368744177664"
    by (simp add: d)
  have v1: "valid_input (Some (replicate 20971519 255)) 16777216 4194304 1"
    by (simp add: valid_input_def)
  have "region (replicate 20971519 255) 16777216 4194304 1 = replicate (16777216 * 4194304) (255 :: 8 word)"
    by (rule region_replicate_stride_one) simp
  then have r1: "region (replicate 20971519 255) (dim 16777216) (dim 4194304) (dim 1)
      = replicate (dim (16777216 :: 32 word) * dim (4194304 :: 32 word)) 255"
    by (simp only: d)
  have v2: "valid_input (Some (replicate 70368744177664 255)) 16777216 4194304 16777216"
    by (simp add: valid_input_def)
  have "region (replicate (16777216 * 4194304) 255) 16777216 4194304 16777216
      = replicate (16777216 * 4194304) (255 :: 8 word)"
    by (rule region_replicate_packed)
  then have r2: "region (replicate 70368744177664 255) (dim 16777216) (dim 4194304) (dim 16777216)
      = replicate (dim (16777216 :: 32 word) * dim (4194304 :: 32 word)) 255"
    by (simp add: d)
  show ?thesis
    using v1 saturated_call [OF v1 n r1] v2 saturated_call [OF v2 n r2] by simp
qed

section \<open>The mean and the standard deviation\<close>

text \<open>
  The values of the two passes, operation by operation: under the bounds of a valid
  input every operation of the routine returns its real result rounded to nearest.
\<close>

lemma nearest64: "nearest_even 53 (- 1074) x (rnd 53 (- 1074) x)"
  by (rule rnd_nearest_even) simp

lemma nearest32: "nearest_even 24 (- 149) x (rnd 24 (- 149) x)"
  by (rule rnd_nearest_even) simp

lemma add_sample_value:
  assumes "0 \<le> s" and "s \<le> 2 ^ 61"
  shows "add_sample (Finite s) v = Finite (rnd 53 (- 1074) (s + real_of_int (uint v)))"
    and "0 \<le> rnd 53 (- 1074) (s + real_of_int (uint v))"
    and "rnd 53 (- 1074) (s + real_of_int (uint v)) \<le> 2 ^ 61"
proof -
  let ?u = "real_of_int (uint v)"
  have u: "0 \<le> ?u" "?u \<le> 255"
    by (rule real_byte_bounds)+
  have "\<bar>s + ?u\<bar> \<le> 2 powi 62"
    using assms u by simp
  then have "round64 (s + ?u) = Finite (rnd 53 (- 1074) (s + ?u))"
    by (rule round64_finite) simp_all
  then show "add_sample (Finite s) v = Finite (rnd 53 (- 1074) (s + ?u))"
    unfolding add_sample_def double_of_byte by simp
  show "0 \<le> rnd 53 (- 1074) (s + ?u)"
    using assms(1) u(1) by (intro rnd_nonneg) simp
  have "rnd 53 (- 1074) (s + ?u) \<le> rnd 53 (- 1074) (2 ^ 61 + 255)"
    using assms(2) u(2) by (intro rnd_mono) simp_all
  then show "rnd 53 (- 1074) (s + ?u) \<le> 2 ^ 61"
    by (simp only: rnd64_stall_sum)
qed

lemma foldl_add_sample_accumulated:
  assumes "0 \<le> s" and "s \<le> 2 ^ 61"
  shows "\<exists>t. foldl add_sample (Finite s) vs = Finite t \<and> 0 \<le> t \<and> t \<le> 2 ^ 61 \<and>
    double_accumulated s (map (\<lambda>v. real_of_int (uint v)) vs) t"
  using assms
proof (induction vs arbitrary: s)
  case Nil
  then show ?case by simp
next
  case (Cons v vs)
  let ?s' = "rnd 53 (- 1074) (s + real_of_int (uint v))"
  note step = add_sample_value [OF Cons.prems, of v]
  obtain t where t: "foldl add_sample (Finite ?s') vs = Finite t" "0 \<le> t" "t \<le> 2 ^ 61"
    "double_accumulated ?s' (map (\<lambda>v. real_of_int (uint v)) vs) t"
    using Cons.IH [OF step(2,3)] by blast
  have "double_accumulated s (map (\<lambda>v. real_of_int (uint v)) (v # vs)) t"
    using t(4) nearest64 [of "s + real_of_int (uint v)"] by auto
  then show ?case
    using t(1,2,3) step(1) by auto
qed

lemma double_of_count_value:
  assumes "1 \<le> n" and "n \<le> 2 ^ 62"
  shows "double_of_int n = Finite (rnd 53 (- 1074) (of_int n))" and "1 \<le> rnd 53 (- 1074) (of_int n)"
proof -
  have "\<bar>real_of_int n\<bar> \<le> 2 ^ 62"
    using assms by (simp add: of_int_le_numeral_power_cancel_iff)
  then have "\<bar>real_of_int n\<bar> \<le> 2 powi 62"
    by simp
  then have "round64 (of_int n) = Finite (rnd 53 (- 1074) (of_int n))"
    by (rule round64_finite) simp_all
  then show "double_of_int n = Finite (rnd 53 (- 1074) (of_int n))"
    by (simp add: double_of_int_def)
  have "rnd 53 (- 1074) 1 \<le> rnd 53 (- 1074) (of_int n)"
    using assms(1) by (intro rnd_mono) simp_all
  moreover have "rnd 53 (- 1074) 1 = 1"
    using rnd_two_powi [of 53 "- 1074" 0] by simp
  ultimately show "1 \<le> rnd 53 (- 1074) (of_int n)"
    by simp
qed

lemma quotient_value:
  assumes "0 \<le> t" and "t \<le> 2 powi k" and "1 \<le> c" and "- 1074 \<le> k" and "k < 1024"
  shows "ddiv (Finite t) (Finite c) = Finite (rnd 53 (- 1074) (t / c))"
    and "0 \<le> rnd 53 (- 1074) (t / c)" and "rnd 53 (- 1074) (t / c) \<le> 2 powi k"
proof -
  have q: "0 \<le> t / c" "t / c \<le> 2 powi k"
  proof -
    show "0 \<le> t / c"
      using assms(1,3) by simp
    have "t / c \<le> t / 1"
      using assms(1,3) by (intro divide_left_mono) simp_all
    then show "t / c \<le> 2 powi k"
      using assms(2) by simp
  qed
  then have "\<bar>t / c\<bar> \<le> 2 powi k"
    by simp
  then have "round64 (t / c) = Finite (rnd 53 (- 1074) (t / c))"
    using assms(4,5) by (rule round64_finite)
  then show "ddiv (Finite t) (Finite c) = Finite (rnd 53 (- 1074) (t / c))"
    using assms(3) by simp
  show "0 \<le> rnd 53 (- 1074) (t / c)"
    using q(1) by (rule rnd_nonneg)
  have "rnd 53 (- 1074) (t / c) \<le> rnd 53 (- 1074) (2 powi k)"
    using q(2) by (intro rnd_mono) simp_all
  also have "\<dots> = 2 powi k"
    using assms(4) by (intro rnd_two_powi) simp_all
  finally show "rnd 53 (- 1074) (t / c) \<le> 2 powi k" .
qed

lemma narrowing_value:
  assumes "0 \<le> m" and "m \<le> 2 powi k" and "- 149 \<le> k" and "k < 128"
  shows "float_of_double (Finite m) = Finite (rnd 24 (- 149) m)"
proof -
  have "\<bar>m\<bar> \<le> 2 powi k"
    using assms(1,2) by simp
  then have "round32 m = Finite (rnd 24 (- 149) m)"
    using assms(3,4) by (rule round32_finite)
  then show ?thesis
    by simp
qed

lemma spec_mean_value:
  assumes "1 \<le> int w * int h" and "int w * int h \<le> 2 ^ 62"
  shows "\<exists>S m. foldl add_sample (Finite 0) (region buf w h rs) = Finite S \<and>
    double_accumulated 0 (samples buf w h rs) S \<and>
    m = rnd 53 (- 1074) (S / rnd 53 (- 1074) (real (w * h))) \<and>
    spec_mean buf w h rs = Finite m \<and> 0 \<le> m \<and> m \<le> 2 ^ 61"
proof -
  obtain S where S: "foldl add_sample (Finite 0) (region buf w h rs) = Finite S" "0 \<le> S" "S \<le> 2 ^ 61"
    "double_accumulated 0 (samples buf w h rs) S"
    using foldl_add_sample_accumulated [of 0 "region buf w h rs"] unfolding samples_def by auto
  have n: "real_of_int (int w * int h) = real (w * h)"
    by simp
  note c = double_of_count_value [OF assms, unfolded n]
  have "S \<le> 2 powi 61"
    using S(3) by simp
  note q = quotient_value [OF S(2) this c(2)]
  have "spec_mean buf w h rs = Finite (rnd 53 (- 1074) (S / rnd 53 (- 1074) (real (w * h))))"
    unfolding spec_mean_def S(1) c(1) by (rule q(1)) simp_all
  moreover have "0 \<le> rnd 53 (- 1074) (S / rnd 53 (- 1074) (real (w * h)))"
    by (rule q(2)) simp_all
  moreover have "rnd 53 (- 1074) (S / rnd 53 (- 1074) (real (w * h))) \<le> 2 powi 61"
    by (rule q(3)) simp_all
  ultimately show ?thesis
    using S(1,4) by simp
qed

text \<open>
  C1. For a valid input the call returns, and its \<open>mean\<close> field is a finite \<open>float\<close>
  \<open>f\<close>: the nearest \<open>float\<close> to a \<open>double\<close> \<open>m\<close> that is the mean of the samples of the
  \<open>width x height\<close> region in double precision, that is the samples added in row order,
  each sum rounded to the nearest \<open>double\<close>, the total divided by \<open>N = width * height\<close>,
  the real quotient rounded to the nearest \<open>double\<close>. Whenever the exact sum and \<open>N\<close> do
  not exceed \<open>2 ^ 53\<close>, \<open>m\<close> is the nearest \<open>double\<close> to the real quotient \<open>sum / N\<close>.
\<close>

theorem mean_is_double_precision_mean:
  assumes "valid_input (Some buf) width height rowStride"
  shows "\<exists>r reads m f. process_gray (Some buf) width height rowStride = Inr (r, reads) \<and>
    a r = Finite f \<and>
    is_double_mean (samples buf (dim width) (dim height) (dim rowStride)) (dim width * dim height) m \<and>
    nearest_even 24 (- 149) m f \<and>
    (sample_sum buf (dim width) (dim height) (dim rowStride) \<le> 2 ^ 53 \<and>
       int (dim width) * int (dim height) \<le> 2 ^ 53 \<longrightarrow>
     nearest_even 53 (- 1074)
       (real_of_int (sample_sum buf (dim width) (dim height) (dim rowStride))
          / real (dim width * dim height)) m)"
proof -
  let ?W = "dim width" and ?H = "dim height" and ?R = "dim rowStride"
  let ?c = "rnd 53 (- 1074) (real (?W * ?H))"
  from assms have "0 < sint width" "0 < sint height"
    by (simp_all add: valid_input_def)
  then have n: "1 \<le> int ?W * int ?H" "int ?W * int ?H \<le> 2 ^ 62"
    by (rule count_bounds)+
  obtain S m where S: "foldl add_sample (Finite 0) (region buf ?W ?H ?R) = Finite S"
    "double_accumulated 0 (samples buf ?W ?H ?R) S"
    and m: "m = rnd 53 (- 1074) (S / ?c)" "spec_mean buf ?W ?H ?R = Finite m" "0 \<le> m" "m \<le> 2 ^ 61"
    using spec_mean_value [OF n] by blast
  have mean: "is_double_mean (samples buf ?W ?H ?R) (?W * ?H) m"
    unfolding is_double_mean_def m(1) using S(2) nearest64 by blast
  have "m \<le> 2 powi 61"
    using m(4) by simp
  with m(3) have f: "float_of_double (Finite m) = Finite (rnd 24 (- 149) m)"
    by (rule narrowing_value) simp_all
  have exact: "nearest_even 53 (- 1074) (real_of_int (sample_sum buf ?W ?H ?R) / real (?W * ?H)) m"
    if "sample_sum buf ?W ?H ?R \<le> 2 ^ 53 \<and> int ?W * int ?H \<le> 2 ^ 53"
  proof -
    have "foldl add_sample (Finite (of_int 0)) (region buf ?W ?H ?R)
        = Finite (of_int (0 + sum_list (map uint (region buf ?W ?H ?R))))"
      using that by (intro foldl_add_sample_exact) (simp_all add: sample_sum_def)
    then have "Finite S = Finite (of_int (sample_sum buf ?W ?H ?R))"
      using S(1) by (simp add: sample_sum_def)
    then have S': "S = of_int (sample_sum buf ?W ?H ?R)"
      by (simp only: fp.inject)
    have "round64 (of_int (int ?W * int ?H)) = Finite (of_int (int ?W * int ?H))"
      using that n(1) by (intro round64_int) simp
    moreover have "round64 (of_int (int ?W * int ?H)) = Finite (rnd 53 (- 1074) (of_int (int ?W * int ?H)))"
      using double_of_count_value(1) [OF n] by (simp only: double_of_int_def)
    ultimately have "rnd 53 (- 1074) (real_of_int (int ?W * int ?H)) = real_of_int (int ?W * int ?H)"
      by simp
    then have c: "?c = real (?W * ?H)"
      by simp
    show ?thesis
      unfolding m(1) S' c by (rule nearest64)
  qed
  define r where "r = \<lparr>a = float_of_double (spec_mean buf ?W ?H ?R),
    b = float_of_double (spec_stddev buf ?W ?H ?R)\<rparr>"
  have out: "process_gray (Some buf) width height rowStride
      = Inr (r, region_offsets ?W ?H ?R @ region_offsets ?W ?H ?R)"
    unfolding r_def by (rule process_gray_valid [OF assms])
  have "a r = float_of_double (spec_mean buf ?W ?H ?R)"
    by (simp add: r_def)
  then have "a r = Finite (rnd 24 (- 149) m)"
    by (simp only: m(2) f)
  then show ?thesis
    using out mean nearest32 [of m] exact by blast
qed

lemma rnd64_seven_thirds: "rnd 53 (- 1074) (7 / 3) = 5254199565265579 / 2251799813685248"
proof -
  have "rnd 53 (- 1074) (7 / 3) = of_int 5254199565265579 * 2 powi (1 - (int 53 - 1))"
    by (rule rnd_by_bounds) simp_all
  then show ?thesis
    by (simp add: power_int_minus_divide)
qed

lemma rnd32_seven_thirds:
  "rnd 24 (- 149) (5254199565265579 / 2251799813685248) = 9786709 / 4194304"
proof -
  have "rnd 24 (- 149) (5254199565265579 / 2251799813685248)
      = of_int 9786709 * 2 powi (1 - (int 24 - 1))"
    by (rule rnd_by_bounds) simp_all
  then show ?thesis
    by (simp add: power_int_minus_divide)
qed

theorem mean_is_double_precision_mean_witness:
  "valid_input (Some [1, 2, 4]) 3 1 3 \<and>
   (\<exists>r reads. process_gray (Some [1, 2, 4]) 3 1 3 = Inr (r, reads) \<and>
      a r = Finite (9786709 / 4194304))"
proof -
  have v: "valid_input (Some [1, 2, 4]) 3 1 3"
    by (simp add: valid_input_def)
  have s: "sample_sum [1, 2, 4] (dim 3) (dim 1) (dim 3) = 7"
    by (simp add: sample_sum_def region_def dim_def upt_rec)
  have n: "dim (3 :: 32 word) * dim (1 :: 32 word) = 3"
    by (simp add: dim_def)
  obtain r reads m f where out: "process_gray (Some [1, 2, 4]) 3 1 3 = Inr (r, reads)" "a r = Finite f"
    and f: "nearest_even 24 (- 149) m f"
    and m: "nearest_even 53 (- 1074) (real_of_int 7 / real 3) m"
    using mean_is_double_precision_mean [OF v] unfolding s n by (auto simp add: dim_def)
  have "m = rnd 53 (- 1074) (real_of_int 7 / real 3)"
    using m by (intro nearest_even_unique) simp_all
  then have "m = 5254199565265579 / 2251799813685248"
    by (simp add: rnd64_seven_thirds)
  moreover have "f = rnd 24 (- 149) m"
    using f by (intro nearest_even_unique) simp_all
  ultimately have "f = 9786709 / 4194304"
    by (simp only: rnd32_seven_thirds)
  then show ?thesis
    using v out by simp
qed

text \<open>
  The second pass. The product \<open>d * d\<close> and the addition to \<open>var\<close> are rounded
  separately (no fused multiply-add), and \<open>std::sqrt\<close> is correctly rounded.
\<close>

lemma add_deviation_value:
  fixes v :: "8 word"
  assumes "0 \<le> m" and "m \<le> 2 ^ 61" and "0 \<le> s" and "s \<le> 2 ^ 176"
  defines "d \<equiv> rnd 53 (- 1074) (real_of_int (uint v) - m)"
  defines "q \<equiv> rnd 53 (- 1074) (d * d)"
  shows "add_deviation (Finite m) (Finite s) v = Finite (rnd 53 (- 1074) (s + q))"
    and "0 \<le> rnd 53 (- 1074) (s + q)" and "rnd 53 (- 1074) (s + q) \<le> 2 ^ 176"
proof -
  let ?u = "real_of_int (uint v)"
  have u: "0 \<le> ?u" "?u \<le> 255"
    by (rule real_byte_bounds)+
  have ab: "\<bar>?u - m\<bar> \<le> 2 powi 61"
    using u assms(1,2) by simp
  have "round64 (?u - m) = Finite d"
    unfolding d_def using ab by (rule round64_finite) simp_all
  then have sub: "dsub (Finite ?u) (Finite m) = Finite d"
    by (simp add: dsub_def)
  have "\<bar>d\<bar> \<le> 2 powi 61"
    unfolding d_def by (rule rnd_abs_le [OF _ _ ab]) simp_all
  then have dabs: "\<bar>d\<bar> \<le> 2 ^ 61"
    by simp
  have "d * d = \<bar>d\<bar> * \<bar>d\<bar>"
    by simp
  also have "\<dots> \<le> 2 ^ 61 * 2 ^ 61"
    using dabs by (intro mult_mono) simp_all
  finally have dd: "0 \<le> d * d" "d * d \<le> 2 powi 122"
    by simp_all
  then have "\<bar>d * d\<bar> \<le> 2 powi 122"
    by simp
  then have mul: "round64 (d * d) = Finite q"
    unfolding q_def by (rule round64_finite) simp_all
  have q0: "0 \<le> q"
    unfolding q_def using dd(1) by (rule rnd_nonneg)
  have "q \<le> rnd 53 (- 1074) (2 powi 122)"
    unfolding q_def using dd(2) by (intro rnd_mono) simp_all
  also have "\<dots> = 2 powi 122"
    by (rule rnd_two_powi) simp_all
  finally have q1: "q \<le> 2 ^ 122"
    by simp
  have "\<bar>s + q\<bar> \<le> 2 powi 177"
    using assms(3,4) q0 q1 by simp
  then have "round64 (s + q) = Finite (rnd 53 (- 1074) (s + q))"
    by (rule round64_finite) simp_all
  then show "add_deviation (Finite m) (Finite s) v = Finite (rnd 53 (- 1074) (s + q))"
    unfolding add_deviation_def double_of_byte sub by (simp add: mul)
  show "0 \<le> rnd 53 (- 1074) (s + q)"
    using assms(3) q0 by (intro rnd_nonneg) simp
  have "rnd 53 (- 1074) (s + q) \<le> rnd 53 (- 1074) (2 ^ 176 + 2 ^ 122)"
    using assms(4) q1 by (intro rnd_mono) simp_all
  then show "rnd 53 (- 1074) (s + q) \<le> 2 ^ 176"
    by (simp only: rnd64_stall_var)
qed

lemma foldl_add_deviation_accumulated:
  assumes "0 \<le> m" and "m \<le> 2 ^ 61" and "0 \<le> s" and "s \<le> 2 ^ 176"
  shows "\<exists>t. foldl (add_deviation (Finite m)) (Finite s) vs = Finite t \<and> 0 \<le> t \<and> t \<le> 2 ^ 176 \<and>
    deviations_accumulated m s (map (\<lambda>v. real_of_int (uint v)) vs) t"
  using assms(3,4)
proof (induction vs arbitrary: s)
  case Nil
  then show ?case by simp
next
  case (Cons v vs)
  define d where "d = rnd 53 (- 1074) (real_of_int (uint v) - m)"
  define q where "q = rnd 53 (- 1074) (d * d)"
  define s' where "s' = rnd 53 (- 1074) (s + q)"
  note step = add_deviation_value [OF assms(1,2) Cons.prems, where v = v, folded d_def q_def s'_def]
  obtain t where t: "foldl (add_deviation (Finite m)) (Finite s') vs = Finite t" "0 \<le> t" "t \<le> 2 ^ 176"
    "deviations_accumulated m s' (map (\<lambda>v. real_of_int (uint v)) vs) t"
    using Cons.IH [OF step(2,3)] by blast
  have "nearest_even 53 (- 1074) (real_of_int (uint v) - m) d"
    and "nearest_even 53 (- 1074) (d * d) q" and "nearest_even 53 (- 1074) (s + q) s'"
    unfolding d_def q_def s'_def by (rule nearest64)+
  then have "deviations_accumulated m s (map (\<lambda>v. real_of_int (uint v)) (v # vs)) t"
    using t(4) by auto
  then show ?case
    using t(1,2,3) step(1) by auto
qed

text \<open>
  C2. For a valid input the call returns, and its \<open>stddev\<close> field is a finite \<open>float\<close>
  \<open>f\<close>: the nearest \<open>float\<close> to a \<open>double\<close> \<open>s\<close> that is the population standard deviation
  of the samples of the region in double precision about the mean \<open>m\<close> of the first pass
  (the \<open>double\<close>, before narrowing): the squared deviations from \<open>m\<close> accumulated over the
  same region, the sum divided by \<open>N\<close> (not \<open>N - 1\<close>), and the real square root of the
  quotient rounded to the nearest \<open>double\<close>.
\<close>

theorem stddev_is_double_precision_population_stddev:
  assumes "valid_input (Some buf) width height rowStride"
  shows "\<exists>r reads m s f. process_gray (Some buf) width height rowStride = Inr (r, reads) \<and>
    b r = Finite f \<and>
    is_double_mean (samples buf (dim width) (dim height) (dim rowStride)) (dim width * dim height) m \<and>
    is_double_stddev (samples buf (dim width) (dim height) (dim rowStride)) (dim width * dim height) m s \<and>
    nearest_even 24 (- 149) s f"
proof -
  let ?W = "dim width" and ?H = "dim height" and ?R = "dim rowStride"
  let ?c = "rnd 53 (- 1074) (real (?W * ?H))"
  from assms have "0 < sint width" "0 < sint height"
    by (simp_all add: valid_input_def)
  then have n: "1 \<le> int ?W * int ?H" "int ?W * int ?H \<le> 2 ^ 62"
    by (rule count_bounds)+
  have nr: "real_of_int (int ?W * int ?H) = real (?W * ?H)"
    by simp
  note c = double_of_count_value [OF n, unfolded nr]
  obtain S m where S: "double_accumulated 0 (samples buf ?W ?H ?R) S"
    and m: "m = rnd 53 (- 1074) (S / ?c)" "spec_mean buf ?W ?H ?R = Finite m" "0 \<le> m" "m \<le> 2 ^ 61"
    using spec_mean_value [OF n] by blast
  have mean: "is_double_mean (samples buf ?W ?H ?R) (?W * ?H) m"
    unfolding is_double_mean_def m(1) using S nearest64 by blast
  obtain V where V: "foldl (add_deviation (Finite m)) (Finite 0) (region buf ?W ?H ?R) = Finite V"
    "0 \<le> V" "V \<le> 2 ^ 176" "deviations_accumulated m 0 (samples buf ?W ?H ?R) V"
    using foldl_add_deviation_accumulated [OF m(3,4), of 0 "region buf ?W ?H ?R"]
    unfolding samples_def by auto
  define x where "x = rnd 53 (- 1074) (V / ?c)"
  define s where "s = rnd 53 (- 1074) (sqrt x)"
  have "V \<le> 2 powi 176"
    using V(3) by simp
  note q = quotient_value [OF V(2) this c(2), folded x_def]
  have var: "ddiv (Finite V) (Finite ?c) = Finite x"
    by (rule q(1)) simp_all
  have x0: "0 \<le> x"
    by (rule q(2)) simp_all
  have "x \<le> 2 powi 176"
    by (rule q(3)) simp_all
  then have "sqrt x \<le> sqrt ((2 ^ 88)\<^sup>2)"
    by (intro real_sqrt_le_mono) simp
  then have sq: "sqrt x \<le> 2 powi 88"
    by simp
  have root: "dsqrt (Finite x) = Finite s"
    using x0 by (simp add: s_def rnd_sqrt_eq')
  have s0: "0 \<le> s"
    unfolding s_def using x0 by (intro rnd_nonneg) simp
  have "s \<le> rnd 53 (- 1074) (2 powi 88)"
    unfolding s_def using sq by (intro rnd_mono) simp_all
  also have "\<dots> = 2 powi 88"
    by (rule rnd_two_powi) simp_all
  finally have "s \<le> 2 powi 88" .
  with s0 have f: "float_of_double (Finite s) = Finite (rnd 24 (- 149) s)"
    by (rule narrowing_value) simp_all
  have dev: "is_double_stddev (samples buf ?W ?H ?R) (?W * ?H) m s"
    unfolding is_double_stddev_def using V(4) nearest64 [of "real (?W * ?H)"]
      nearest64 [of "V / ?c"] nearest64 [of "sqrt x"] unfolding x_def [symmetric] s_def [symmetric]
    by blast
  have sd: "spec_stddev buf ?W ?H ?R = Finite s"
    unfolding spec_stddev_def m(2) V(1) c(1) var root ..
  define r where "r = \<lparr>a = float_of_double (spec_mean buf ?W ?H ?R),
    b = float_of_double (spec_stddev buf ?W ?H ?R)\<rparr>"
  have out: "process_gray (Some buf) width height rowStride
      = Inr (r, region_offsets ?W ?H ?R @ region_offsets ?W ?H ?R)"
    unfolding r_def by (rule process_gray_valid [OF assms])
  have "b r = float_of_double (spec_stddev buf ?W ?H ?R)"
    by (simp add: r_def)
  then have "b r = Finite (rnd 24 (- 149) s)"
    by (simp only: sd f)
  then show ?thesis
    using out mean dev nearest32 [of s] by blast
qed


lemma rnd64_sqrt_five: "rnd 53 (- 1074) (sqrt 5) = 629397181890197 / 281474976710656"
proof -
  have lo: "10070354910243151 / 4503599627370496 < sqrt 5"
    by (rule real_less_rsqrt) (simp add: power2_eq_square)
  have hi: "sqrt 5 < 10070354910243153 / 4503599627370496"
    by (rule real_less_lsqrt) (simp_all add: power2_eq_square)
  have e: "sqrt 5 / 2 powi (1 - (int 53 - 1)) = sqrt 5 * 2251799813685248"
    by (simp add: power_int_minus_divide)
  have "rnd 53 (- 1074) (sqrt 5) = of_int 5035177455121576 * 2 powi (1 - (int 53 - 1))"
  proof (rule rnd_by_bounds)
    show "2 powi 1 \<le> \<bar>sqrt 5\<bar>"
      using lo by simp
    show "\<bar>sqrt 5\<bar> < 2 powi (1 + 1)"
      using hi by simp
    show "- 1074 \<le> 1 - (int 53 - 1)"
      by simp
    have "\<bar>sqrt 5 * 2251799813685248 - 5035177455121576\<bar> < 1 / 2"
      using lo hi by linarith
    then show "\<bar>sqrt 5 / 2 powi (1 - (int 53 - 1)) - real_of_int 5035177455121576\<bar> < 1 / 2 \<or>
        \<bar>sqrt 5 / 2 powi (1 - (int 53 - 1)) - real_of_int 5035177455121576\<bar> = 1 / 2 \<and>
        even (5035177455121576 :: int)"
      unfolding e by simp
  qed
  then show ?thesis
    by (simp add: power_int_minus_divide)
qed

lemma rnd32_sqrt_five: "rnd 24 (- 149) (629397181890197 / 281474976710656) = 9378749 / 4194304"
proof -
  have "rnd 24 (- 149) (629397181890197 / 281474976710656)
      = of_int 9378749 * 2 powi (1 - (int 24 - 1))"
    by (rule rnd_by_bounds) simp_all
  then show ?thesis
    by (simp add: power_int_minus_divide)
qed

lemma samples_3571: "samples [3, 5, 7, 1] (dim 2) (dim 2) (dim 2) = [3, 5, 7, 1]"
  by (simp add: samples_def region_def dim_def upt_rec)

lemma mean_3571:
  assumes "is_double_mean [3, 5, 7, 1] 4 m"
  shows "m = 4"
  using assms
  by (auto simp add: is_double_mean_def nearest_even_iff rnd_scaled [where k = 0])

lemma stddev_3571:
  assumes "is_double_stddev [3, 5, 7, 1] 4 4 s"
  shows "s = 629397181890197 / 281474976710656"
proof -
  have "rnd 53 (- 1074) (- 1) = - 1" "rnd 53 (- 1074) (- 3) = - 3"
    using rnd_minus [of 53 "- 1074" 1] rnd_minus [of 53 "- 1074" 3]
    by (simp_all add: rnd_scaled [where k = 0])
  then show ?thesis
    using assms
    by (auto simp add: is_double_stddev_def nearest_even_iff rnd_scaled [where k = 0] rnd64_sqrt_five)
qed

theorem stddev_is_double_precision_population_stddev_witness:
  "valid_input (Some [3, 5, 7, 1]) 2 2 2 \<and>
   (\<exists>r reads. process_gray (Some [3, 5, 7, 1]) 2 2 2 = Inr (r, reads) \<and>
      b r = Finite (9378749 / 4194304))"
proof -
  have v: "valid_input (Some [3, 5, 7, 1]) 2 2 2"
    by (simp add: valid_input_def)
  have n: "dim (2 :: 32 word) * dim (2 :: 32 word) = 4"
    by (simp add: dim_def)
  obtain r reads m s f where out: "process_gray (Some [3, 5, 7, 1]) 2 2 2 = Inr (r, reads)"
    "b r = Finite f"
    and m: "is_double_mean [3, 5, 7, 1] 4 m" and s: "is_double_stddev [3, 5, 7, 1] 4 m s"
    and f: "nearest_even 24 (- 149) s f"
    using stddev_is_double_precision_population_stddev [OF v] unfolding samples_3571 n by blast
  have "m = 4"
    using m by (rule mean_3571)
  with s have "s = 629397181890197 / 281474976710656"
    by (intro stddev_3571) simp
  moreover have "f = rnd 24 (- 149) s"
    using f by (intro nearest_even_unique) simp_all
  ultimately have "f = 9378749 / 4194304"
    by (simp only: rnd32_sqrt_five)
  then show ?thesis
    using v out by simp
qed

end
